theory Spec2Isabelle
  imports Main "HOL-Library.Sublist" "HOL-Library.Multiset"
begin

section \<open>Strings: the functions of Go's strings package the handlers call\<close>

text \<open>
  Go strings are byte sequences; \<open>string\<close> is \<open>char list\<close> and a \<open>char\<close> is a byte.
  \<open>strings.HasPrefix s p\<close> is \<open>prefix p s\<close> of the library.
\<close>

text \<open>\<open>strings.Split(s, "/")\<close>: the pieces between the separators; a string without
  separator (the empty one too) gives one piece.\<close>

fun split_on :: "char \<Rightarrow> string \<Rightarrow> string list" where
  "split_on c [] = [[]]"
| "split_on c (x # xs) =
     (if x = c then [] # split_on c xs
      else (case split_on c xs of
              [] \<Rightarrow> [[x]]
            | p # ps \<Rightarrow> (x # p) # ps))"

text \<open>\<open>strings.Join(parts, sep)\<close>.\<close>

fun join :: "string \<Rightarrow> string list \<Rightarrow> string" where
  "join sep [] = []"
| "join sep [p] = p"
| "join sep (p # q # ps) = p @ sep @ join sep (q # ps)"

text \<open>\<open>strings.TrimRight(s, "/")\<close>: every trailing separator is removed.\<close>

definition trim_right :: "char \<Rightarrow> string \<Rightarrow> string" where
  "trim_right c s = rev (dropWhile (\<lambda>x. x = c) (rev s))"

text \<open>\<open>strings.TrimPrefix(s, p)\<close>: one leading \<open>p\<close> is removed when there is one.\<close>

definition TrimPrefix :: "string \<Rightarrow> string \<Rightarrow> string" where
  "TrimPrefix s p = (if prefix p s then drop (length p) s else s)"

text \<open>
  \<open>filepath.Join(dir, name)\<close> for the arguments it gets here: a clean, non-empty
  relative directory and one more relative path. (Go also cleans the result.)
\<close>

definition filepath_Join :: "string \<Rightarrow> string \<Rightarrow> string" where
  "filepath_Join dir name = dir @ ''/'' @ name"

section \<open>storage/local.go: entries, the provider interface, \<open>List\<close>\<close>

text \<open>
  \<open>time.Time\<close> is modelled by the whole number of nanoseconds since Go's zero time
  \<open>time.Time{}\<close> (January 1 of year 1, UTC), which is 0 here; \<open>t.After(u)\<close> is
  \<open>u < t\<close>. \<open>Size\<close> is an \<open>int64\<close> that no modelled function computes with.
\<close>

type_synonym time = int

record entry =
  Name :: string
  IsDir :: bool
  Size :: int
  ModTime :: time

datatype error = Error string

text \<open>
  The methods of \<open>StorageProvider\<close> that the handlers and the cleanup read from. A Go
  method returns its values and its error side by side, and a slice may be nil, so
  \<open>List\<close> gives a pair of an optional list (\<open>None\<close> for the nil slice) and an
  optional error (\<open>None\<close> for a nil error); \<open>Get\<close> gives the bytes of the reader, the
  found flag and the error. \<open>Save\<close> and \<open>Delete\<close> are effects: the functions below
  return the paths they call them with.
\<close>

record store =
  store_List :: "string \<Rightarrow> entry list option \<times> error option"
  store_Get :: "string \<Rightarrow> string \<times> bool \<times> error option"
  store_Head :: "string \<Rightarrow> bool \<times> error option"

text \<open>Ranging over a slice, nil or not.\<close>

definition elems :: "'a list option \<Rightarrow> 'a list" where
  "elems sl = (case sl of None \<Rightarrow> [] | Some xs \<Rightarrow> xs)"







section \<open>handler/maven.go: the artifact path of the direct GET upstream fallback\<close>

text \<open>
  Lines 80 to 89 of \<open>HandleDownload\<close>:
  \<^verbatim>\<open>
  parts := strings.Split(path, "/")
  if strings.HasPrefix(path, "repository/") && len(parts) > 2 {
      artifactPath = strings.Join(parts[2:], "/")
  } else if strings.HasPrefix(path, "public/") && len(parts) > 1 {
      artifactPath = strings.Join(parts[1:], "/")
  } else {
      artifactPath = path
  }
  \<close>
\<close>

definition artifactPath :: "string \<Rightarrow> string" where
  "artifactPath path =
     (let parts = split_on CHR ''/'' path in
      if prefix ''repository/'' path \<and> length parts > 2 then join ''/'' (drop 2 parts)
      else if prefix ''public/'' path \<and> length parts > 1 then join ''/'' (drop 1 parts)
      else path)"

section \<open>service/cleanup.go: the two snapshot patterns and \<open>extractVersion\<close>\<close>

text \<open>
  The fragment of Go's regexp syntax that the two patterns of cleanup.go use: character
  classes (a literal byte, \<open>.\<close> which is every byte but the newline, \<open>\d\<close> which is
  an ASCII digit), the greedy repetitions \<open>+\<close>, \<open>*\<close> and \<open>{n}\<close> of a class, the
  anchors, concatenation and numbered capture groups. Every literal of the two patterns
  is ASCII, so matching bytes and matching UTF-8 code points split a name at the same
  places.
\<close>

datatype cclass = Lit char | AnyNotNL | Digit

fun accepts :: "cclass \<Rightarrow> char \<Rightarrow> bool" where
  "accepts (Lit a) x = (x = a)"
| "accepts AnyNotNL x = (x \<noteq> CHR 0x0A)"
| "accepts Digit x = (x \<in> set ''0123456789'')"

datatype regex =
    Bol
  | Eol
  | Class cclass
  | Plus cclass
  | Star cclass
  | Repeat nat cclass
  | Concat regex regex
  | Capture nat regex

text \<open>
  A matcher state is the offset reached in the text, the text still to read and the
  capture groups closed so far (an unset group reads as the empty string, as in the
  slice \<open>FindStringSubmatch\<close> returns). \<open>run r st\<close> lists the states in which a
  backtracking search leaves \<open>r\<close> when started in \<open>st\<close>, in the order the search tries
  them: a greedy repetition tries the longest run first. Go's regexp returns the
  leftmost match and, among those, the one a backtracking search finds first.
\<close>

type_synonym mstate = "nat \<times> string \<times> (nat \<Rightarrow> string)"

fun run :: "regex \<Rightarrow> mstate \<Rightarrow> mstate list" where
  "run Bol (pos, s, caps) = (if pos = 0 then [(pos, s, caps)] else [])"
| "run Eol (pos, s, caps) = (if s = [] then [(pos, s, caps)] else [])"
| "run (Class k) (pos, s, caps) =
     (case s of
        [] \<Rightarrow> []
      | x # xs \<Rightarrow> if accepts k x then [(Suc pos, xs, caps)] else [])"
| "run (Plus k) (pos, s, caps) =
     map (\<lambda>n. (pos + n, drop n s, caps)) (rev [1 ..< Suc (length (takeWhile (accepts k) s))])"
| "run (Star k) (pos, s, caps) =
     map (\<lambda>n. (pos + n, drop n s, caps)) (rev [0 ..< Suc (length (takeWhile (accepts k) s))])"
| "run (Repeat n k) (pos, s, caps) =
     (if n \<le> length (takeWhile (accepts k) s) then [(pos + n, drop n s, caps)] else [])"
| "run (Concat a b) st = concat (map (run b) (run a st))"
| "run (Capture i r) (pos, s, caps) =
     map (\<lambda>(pos', s', caps'). (pos', s', caps'(i := take (pos' - pos) s))) (run r (pos, s, caps))"

text \<open>
  \<open>re.FindStringSubmatch(s)\<close> for a pattern with three groups: nil (\<open>None\<close>) when
  nothing matches, else the matched text followed by the text of groups 1 to 3. The
  search starts at offset 0, then 1, and so on.
\<close>

definition submatch_at :: "regex \<Rightarrow> string \<Rightarrow> nat \<Rightarrow> string list list" where
  "submatch_at re s i =
     map (\<lambda>(pos', s', caps). [take (pos' - i) (drop i s), caps 1, caps 2, caps 3])
       (run re (i, drop i s, \<lambda>_. []))"

definition FindStringSubmatch :: "regex \<Rightarrow> string \<Rightarrow> string list option" where
  "FindStringSubmatch re s =
     (case concat (map (submatch_at re s) [0 ..< Suc (length s)]) of
        [] \<Rightarrow> None
      | m # _ \<Rightarrow> Some m)"

text \<open>\<^verbatim>\<open>^(.+)-(\d{8}\.\d{6}-\d+)(.*)$\<close>\<close>

definition uniqueSnapshotRegex :: regex where
  "uniqueSnapshotRegex =
     Concat Bol
    (Concat (Capture 1 (Plus AnyNotNL))
    (Concat (Class (Lit CHR ''-''))
    (Concat (Capture 2
       (Concat (Repeat 8 Digit)
       (Concat (Class (Lit CHR ''.''))
       (Concat (Repeat 6 Digit)
       (Concat (Class (Lit CHR ''-''))
               (Plus Digit))))))
    (Concat (Capture 3 (Star AnyNotNL))
            Eol))))"

text \<open>\<^verbatim>\<open>^(.+)-(SNAPSHOT)(.*)$\<close>\<close>

definition nonUniqueSnapshotRegex :: regex where
  "nonUniqueSnapshotRegex =
     Concat Bol
    (Concat (Capture 1 (Plus AnyNotNL))
    (Concat (Class (Lit CHR ''-''))
    (Concat (Capture 2
       (Concat (Class (Lit CHR ''S''))
       (Concat (Class (Lit CHR ''N''))
       (Concat (Class (Lit CHR ''A''))
       (Concat (Class (Lit CHR ''P''))
       (Concat (Class (Lit CHR ''S''))
       (Concat (Class (Lit CHR ''H''))
       (Concat (Class (Lit CHR ''O''))
               (Class (Lit CHR ''T''))))))))))
    (Concat (Capture 3 (Star AnyNotNL))
            Eol))))"

text \<open>\<open>strings.Index(name, ".")\<close>: the offset of the first dot, \<open>None\<close> for Go's -1.\<close>

fun index_of :: "char \<Rightarrow> string \<Rightarrow> nat option" where
  "index_of c [] = None"
| "index_of c (x # xs) = (if x = c then Some 0 else map_option Suc (index_of c xs))"

text \<open>
  \<open>extractVersion\<close>, lines 243 to 261. A match \<open>m\<close> has four elements, so \<open>m[1]\<close>
  and \<open>m[2]\<close> are in range; the last case of each \<open>case\<close> below cannot occur.
\<close>

definition extractVersion :: "string \<Rightarrow> string" where
  "extractVersion name =
     (case FindStringSubmatch uniqueSnapshotRegex name of
        Some (m0 # m1 # m2 # _) \<Rightarrow> m1 @ ''-'' @ m2
      | _ \<Rightarrow>
     (case FindStringSubmatch nonUniqueSnapshotRegex name of
        Some (m0 # m1 # m2 # _) \<Rightarrow> m1 @ ''-'' @ m2
      | _ \<Rightarrow>
     (case index_of CHR ''.'' name of
        Some dotIdx \<Rightarrow> take dotIdx name
      | None \<Rightarrow> name)))"

section \<open>The two patterns as descriptions of names\<close>

text \<open>
  What it means for a name to match each pattern, written out from the pattern: a name
  matches the unique-snapshot pattern when it is \<open>m1-m2m3\<close> with \<open>m1\<close> not empty,
  \<open>m2\<close> a timestamp (eight digits, a dot, six digits, a hyphen, one digit or more)
  and no newline in \<open>m1\<close> and \<open>m3\<close>; it matches the non-unique pattern when it is
  \<open>m1-SNAPSHOTm3\<close> with the same conditions on \<open>m1\<close> and \<open>m3\<close>.
\<close>

definition no_newline :: "string \<Rightarrow> bool" where
  "no_newline s = (CHR 0x0A \<notin> set s)"

definition digits :: "string \<Rightarrow> bool" where
  "digits s = (\<forall>x\<in>set s. x \<in> set ''0123456789'')"

definition is_timestamp :: "string \<Rightarrow> bool" where
  "is_timestamp m =
     (\<exists>d8 d6 n. m = d8 @ ''.'' @ d6 @ ''-'' @ n \<and>
        length d8 = 8 \<and> digits d8 \<and> length d6 = 6 \<and> digits d6 \<and> n \<noteq> [] \<and> digits n)"

definition unique_match :: "string \<Rightarrow> string \<Rightarrow> string \<Rightarrow> string \<Rightarrow> bool" where
  "unique_match f m1 m2 m3 =
     (f = m1 @ ''-'' @ m2 @ m3 \<and> m1 \<noteq> [] \<and> no_newline m1 \<and> is_timestamp m2 \<and> no_newline m3)"

definition nonunique_match :: "string \<Rightarrow> string \<Rightarrow> string \<Rightarrow> bool" where
  "nonunique_match f m1 m3 =
     (f = m1 @ ''-SNAPSHOT'' @ m3 \<and> m1 \<noteq> [] \<and> no_newline m1 \<and> no_newline m3)"

text \<open>
  The parts the two patterns are built from: both are \<open>^(.+)-(group2)(.*)$\<close>, and
  \<open>tail_re\<close> is what follows the first group.
\<close>

definition rest_re :: regex where
  "rest_re = Concat (Capture 3 (Star AnyNotNL)) Eol"

definition timestamp_re :: regex where
  "timestamp_re =
     Concat (Repeat 8 Digit)
    (Concat (Class (Lit CHR ''.''))
    (Concat (Repeat 6 Digit)
    (Concat (Class (Lit CHR ''-''))
            (Plus Digit))))"

definition snapshot_re :: regex where
  "snapshot_re =
     Concat (Class (Lit CHR ''S''))
    (Concat (Class (Lit CHR ''N''))
    (Concat (Class (Lit CHR ''A''))
    (Concat (Class (Lit CHR ''P''))
    (Concat (Class (Lit CHR ''S''))
    (Concat (Class (Lit CHR ''H''))
    (Concat (Class (Lit CHR ''O''))
            (Class (Lit CHR ''T''))))))))"

definition anchored :: "regex \<Rightarrow> regex" where
  "anchored group2 =
     Concat Bol
    (Concat (Capture 1 (Plus AnyNotNL))
    (Concat (Class (Lit CHR ''-''))
    (Concat (Capture 2 group2) rest_re)))"

definition tail_re :: "regex \<Rightarrow> regex" where
  "tail_re g = Concat (Class (Lit CHR ''-'')) (Concat (Capture 2 g) rest_re)"

section \<open>service/cleanup.go: \<open>cleanupDir\<close>\<close>

text \<open>The fields of \<open>config.Config\<close> that the modelled functions read.\<close>

record config =
  ProxyURLs :: "string list"
  SnapshotCleanupEnabled :: bool
  SnapshotKeepDays :: int
  SnapshotKeepLatestOnly :: bool

text \<open>
  \<open>time.Duration\<close> is an \<open>int64\<close> of nanoseconds. Go's integer arithmetic wraps
  around silently, so \<open>time.Duration(keepDays) * 24 * time.Hour\<close> is the product
  modulo \<open>2^64\<close>, read as a signed number. \<open>t.Sub(u)\<close> saturates instead: a difference
  outside the range of a Duration gives the largest or the smallest Duration.
\<close>

definition wrap64 :: "int \<Rightarrow> int" where
  "wrap64 x = (x + 2 ^ 63) mod 2 ^ 64 - 2 ^ 63"

definition maxDuration :: int where
  "maxDuration = 2 ^ 63 - 1"

definition minDuration :: int where
  "minDuration = - (2 ^ 63)"

definition Hour :: int where
  "Hour = 3600000000000"

definition Sub :: "time \<Rightarrow> time \<Rightarrow> int" where
  "Sub t u =
     (if t - u > maxDuration then maxDuration
      else if t - u < minDuration then minDuration
      else t - u)"

text \<open>Line 175.\<close>

definition keepDays :: "config \<Rightarrow> int" where
  "keepDays cfg = wrap64 (wrap64 (SnapshotKeepDays cfg * 24) * Hour)"

record fileInfo =
  fi_Name :: string
  fi_ModTime :: time

record versionInfo =
  v_Name :: string
  MaxTime :: time
  Files :: "fileInfo list"

text \<open>
  Lines 160 to 172: the body of the loop that fills the map \<open>groups\<close>. Reading a key
  the map does not hold gives the nil slice.
\<close>

definition add_file :: "(string \<rightharpoonup> fileInfo list) \<Rightarrow> entry \<Rightarrow> (string \<rightharpoonup> fileInfo list)" where
  "add_file groups e =
     (if IsDir e then groups
      else if prefix ''maven-metadata'' (Name e) then groups
      else
        let version = extractVersion (Name e) in
        groups(version \<mapsto>
          elems (groups version) @ [\<lparr>fi_Name = Name e, fi_ModTime = ModTime e\<rparr>]))"

definition group_files :: "entry list \<Rightarrow> (string \<rightharpoonup> fileInfo list)" where
  "group_files entries = foldl add_file Map.empty entries"

text \<open>Lines 187 to 192: the newest mod-time of a group, starting from the zero time.\<close>

definition maxTime_of :: "fileInfo list \<Rightarrow> time" where
  "maxTime_of files =
     foldl (\<lambda>maxTime f. if fi_ModTime f > maxTime then fi_ModTime f else maxTime) 0 files"

text \<open>
  Lines 185 to 194. Go visits the keys of a map in an order it does not specify and
  that changes from run to run; \<open>order\<close> is the order of this run, a list of the keys
  of the map without repetition.
\<close>

definition collect_versions :: "(string \<rightharpoonup> fileInfo list) \<Rightarrow> string list \<Rightarrow> versionInfo list" where
  "collect_versions groups order =
     List.map_filter
       (\<lambda>name. case groups name of
                  None \<Rightarrow> None
                | Some files \<Rightarrow>
                    Some \<lparr>v_Name = name, MaxTime = maxTime_of files, Files = files\<rparr>)
       order"

definition range_order :: "('k \<rightharpoonup> 'v) \<Rightarrow> 'k list \<Rightarrow> bool" where
  "range_order m order = (distinct order \<and> set order = dom m)"

text \<open>
  \<open>sort.Slice\<close> is library code and is not stable. On a short slice Go runs the
  insertion sort below: the element at \<open>i\<close> moves left while it is less than its left
  neighbour. On a longer slice it runs a quicksort variant, which also returns a
  permutation of the slice in which no element is less than one before it. The theorems
  on \<open>cleanupDir\<close> hold for every iteration order of the map and use no more of the
  sort than that; the insertion sort is the model at every length. \<open>insert_left\<close>
  works on the already sorted prefix in reverse, so that the left neighbour is the head.
\<close>

fun insert_left :: "('a \<Rightarrow> 'a \<Rightarrow> bool) \<Rightarrow> 'a \<Rightarrow> 'a list \<Rightarrow> 'a list" where
  "insert_left lt x [] = [x]"
| "insert_left lt x (y # ys) =
     (if lt x y then y # insert_left lt x ys else x # y # ys)"

definition sort_Slice :: "('a \<Rightarrow> 'a \<Rightarrow> bool) \<Rightarrow> 'a list \<Rightarrow> 'a list" where
  "sort_Slice lt xs = rev (foldl (\<lambda>acc x. insert_left lt x acc) [] xs)"

text \<open>Lines 196 to 199: newest first.\<close>

definition newer :: "versionInfo \<Rightarrow> versionInfo \<Rightarrow> bool" where
  "newer a b = (MaxTime a > MaxTime b)"

definition sorted_versions :: "entry list \<Rightarrow> string list \<Rightarrow> versionInfo list" where
  "sorted_versions entries order =
     sort_Slice newer (collect_versions (group_files entries) order)"

text \<open>Lines 209 to 224: \<open>shouldDelete\<close> and \<open>reason\<close> of the version at rank \<open>i\<close>.\<close>

definition verdict :: "config \<Rightarrow> time \<Rightarrow> nat \<Rightarrow> versionInfo \<Rightarrow> bool \<times> string" where
  "verdict cfg now i v =
     (let (shouldDelete, reason) =
            (if SnapshotKeepDays cfg > 0 \<and> Sub now (MaxTime v) > keepDays cfg
             then (True, ''expired'') else (False, []))
      in if SnapshotKeepLatestOnly cfg \<and> i > 0
         then (True, if reason = [] then ''not latest'' else reason)
         else (shouldDelete, reason))"

text \<open>
  Lines 226 to 237: the paths \<open>Store.Delete\<close> is called with for one version, and for
  all of them in turn. A failed delete is logged and the loop goes on, so the calls do
  not depend on their results.
\<close>

definition delete_files :: "string \<Rightarrow> versionInfo \<Rightarrow> string list" where
  "delete_files dir v = map (\<lambda>f. filepath_Join dir (fi_Name f)) (Files v)"

definition delete_loop :: "config \<Rightarrow> time \<Rightarrow> string \<Rightarrow> versionInfo list \<Rightarrow> string list" where
  "delete_loop cfg now dir versions =
     concat (map (\<lambda>(i, v). if fst (verdict cfg now i v) then delete_files dir v else [])
                 (enumerate 0 versions))"

text \<open>
  \<open>cleanupDir\<close>, lines 131 to 241: the error it returns and the paths it deletes, in
  the order of the calls. \<open>now\<close> is the reading of \<open>time.Now()\<close>.
\<close>

definition cleanupDir ::
  "store \<Rightarrow> config \<Rightarrow> time \<Rightarrow> string list \<Rightarrow> string \<Rightarrow> error option \<times> string list" where
  "cleanupDir st cfg now order dir =
     (case store_List st dir of
        (entries, Some err) \<Rightarrow> (Some err, [])
      | (entries, None) \<Rightarrow>
          (None, delete_loop cfg now dir (sorted_versions (elems entries) order)))"


section \<open>handler/maven.go: the handlers\<close>

text \<open>
  The HTTP client: \<open>Client.Get(url)\<close> and \<open>Client.Head(url)\<close> return an error or a
  response, of which the handlers read the status code, the content type and the body.
\<close>

record http_response =
  StatusCode :: nat
  ContentType :: string
  Body :: string

record client =
  client_Get :: "string \<Rightarrow> error + http_response"
  client_Head :: "string \<Rightarrow> error + http_response"

text \<open>
  What a handler writes to the client: an HTML index (status 200, the path of its
  heading and the entries of its list items in order), a file of the store streamed as
  \<open>application/octet-stream\<close>, an upstream response passed on (its URL, content type
  and body), a bare status, or a status with a JSON error.
\<close>

datatype response =
    HtmlIndex string "entry list"
  | FileStream string
  | Proxied string string string
  | Status nat
  | JsonError nat error

text \<open>A request a handler sends to a mirror.\<close>

datatype request = GET string | HEAD string

text \<open>
  What a handler does: its response, the requests it sent upstream in order, and the
  paths it called \<open>Store.Save\<close> with.
\<close>

record outcome =
  resp :: response
  upstream :: "request list"
  saved :: "string list"

text \<open>
  The loop over the mirrors of the GET fallback (lines 91 to 143, and 262 to 285 of the
  aggregate handler): the first response with status 200 whose content type does not
  start with \<open>text/html\<close> ends the loop. The result is that response with its URL, if
  any, and the requests sent.
\<close>

fun get_mirrors ::
  "client \<Rightarrow> string \<Rightarrow> string list \<Rightarrow> (string \<times> http_response) option \<times> request list" where
  "get_mirrors cl artifact [] = (None, [])"
| "get_mirrors cl artifact (proxy # proxies) =
     (let url = trim_right CHR ''/'' proxy @ ''/'' @ artifact in
      case client_Get cl url of
        Inr r \<Rightarrow>
          if StatusCode r = 200 then
            if prefix ''text/html'' (ContentType r)
            then (case get_mirrors cl artifact proxies of (res, reqs) \<Rightarrow> (res, GET url # reqs))
            else (Some (url, r), [GET url])
          else (case get_mirrors cl artifact proxies of (res, reqs) \<Rightarrow> (res, GET url # reqs))
      | Inl err \<Rightarrow>
          (case get_mirrors cl artifact proxies of (res, reqs) \<Rightarrow> (res, GET url # reqs)))"

text \<open>The loop over the mirrors of the HEAD handlers (lines 177 to 184 and 309 to 316):
  whether a mirror answered 200, and the requests sent.\<close>

fun head_mirrors :: "client \<Rightarrow> string \<Rightarrow> string list \<Rightarrow> bool \<times> request list" where
  "head_mirrors cl p [] = (False, [])"
| "head_mirrors cl p (proxy # proxies) =
     (let url = trim_right CHR ''/'' proxy @ ''/'' @ p in
      case client_Head cl url of
        Inr r \<Rightarrow>
          if StatusCode r = 200 then (True, [HEAD url])
          else (case head_mirrors cl p proxies of (ok, reqs) \<Rightarrow> (ok, HEAD url # reqs))
      | Inl err \<Rightarrow>
          (case head_mirrors cl p proxies of (ok, reqs) \<Rightarrow> (ok, HEAD url # reqs)))"

text \<open>
  \<open>HandleDownload\<close> from line 59 on: the file probe, the upstream fallback with the
  prefix stripped, and the final status. The \<open>err\<close> tested on line 146 is the one
  \<open>Store.Get\<close> returned. A response passed on from a mirror is saved under the request
  path.
\<close>

definition fileProbe :: "store \<Rightarrow> config \<Rightarrow> client \<Rightarrow> string \<Rightarrow> outcome" where
  "fileProbe st cfg cl path =
     (case store_Get st path of (reader, found, err) \<Rightarrow>
        if err = None \<and> found
        then \<lparr>resp = FileStream reader, upstream = [], saved = []\<rparr>
        else
          (case (if length (ProxyURLs cfg) > 0
                 then get_mirrors cl (artifactPath path) (ProxyURLs cfg)
                 else (None, [])) of
             (Some (url, r), reqs) \<Rightarrow>
               \<lparr>resp = Proxied url (ContentType r) (Body r), upstream = reqs, saved = [path]\<rparr>
           | (None, reqs) \<Rightarrow>
               (case err of
                  Some e \<Rightarrow> \<lparr>resp = JsonError 500 e, upstream = reqs, saved = []\<rparr>
                | None \<Rightarrow> \<lparr>resp = Status 404, upstream = reqs, saved = []\<rparr>)))"

text \<open>\<open>HandleDownload\<close>, lines 29 to 151; \<open>urlPath\<close> is \<open>c.Request.URL.Path\<close>.\<close>

definition HandleDownload :: "store \<Rightarrow> config \<Rightarrow> client \<Rightarrow> string \<Rightarrow> outcome" where
  "HandleDownload st cfg cl urlPath =
     (let path = TrimPrefix urlPath ''/'' in
      case store_List st path of
        (Some entries, None) \<Rightarrow> \<lparr>resp = HtmlIndex path entries, upstream = [], saved = []\<rparr>
      | _ \<Rightarrow> fileProbe st cfg cl path)"

text \<open>\<open>HandleHead\<close>, lines 167 to 192.\<close>

definition HandleHead :: "store \<Rightarrow> config \<Rightarrow> client \<Rightarrow> string \<Rightarrow> outcome" where
  "HandleHead st cfg cl urlPath =
     (let path = TrimPrefix urlPath ''/'' in
      case store_Head st path of (found, err) \<Rightarrow>
        if err = None \<and> found
        then \<lparr>resp = Status 200, upstream = [], saved = []\<rparr>
        else
          (case (if length (ProxyURLs cfg) > 0
                 then head_mirrors cl path (ProxyURLs cfg)
                 else (False, [])) of
             (True, reqs) \<Rightarrow> \<lparr>resp = Status 200, upstream = reqs, saved = []\<rparr>
           | (False, reqs) \<Rightarrow>
               (case err of
                  Some e \<Rightarrow> \<lparr>resp = Status 500, upstream = reqs, saved = []\<rparr>
                | None \<Rightarrow> \<lparr>resp = Status 404, upstream = reqs, saved = []\<rparr>)))"

text \<open>
  \<open>getAggregateRepos\<close>, lines 323 to 347. The loop body works on the pair of
  \<open>repos\<close> and \<open>hasReleases\<close>.
\<close>

definition add_repo :: "string \<Rightarrow> string list \<times> bool \<Rightarrow> entry \<Rightarrow> string list \<times> bool" where
  "add_repo basePath acc e =
     (case acc of (repos, hasReleases) \<Rightarrow>
        if IsDir e then
          if Name e = ''maven-public'' then (repos, hasReleases)
          else if Name e = ''maven-releases'' then (repos, True)
          else (repos @ [trim_right CHR ''/'' basePath @ ''/'' @ Name e], hasReleases)
        else (repos, hasReleases))"

definition getAggregateRepos :: "store \<Rightarrow> string \<Rightarrow> string list" where
  "getAggregateRepos st basePath =
     (case store_List st basePath of
        (entries, Some err) \<Rightarrow> []
      | (entries, None) \<Rightarrow>
          (case foldl (add_repo basePath) ([], False) (elems entries) of
             (repos, hasReleases) \<Rightarrow>
               if hasReleases
               then (trim_right CHR ''/'' basePath @ ''/maven-releases'') # repos
               else repos))"

text \<open>Lines 216 to 225: the listings of all repositories, one after the other, and
  whether one of them was not nil.\<close>

definition add_listing ::
  "store \<Rightarrow> string \<Rightarrow> entry list \<times> bool \<Rightarrow> string \<Rightarrow> entry list \<times> bool" where
  "add_listing st artifact acc repo =
     (case acc of (allEntries, foundDir) \<Rightarrow>
        (case store_List st (trim_right CHR ''/'' repo @ ''/'' @ artifact) of
           (Some entries, None) \<Rightarrow> (allEntries @ entries, True)
         | _ \<Rightarrow> (allEntries, foundDir)))"

definition collect_listings :: "store \<Rightarrow> string \<Rightarrow> string list \<Rightarrow> entry list \<times> bool" where
  "collect_listings st artifact repos = foldl (add_listing st artifact) ([], False) repos"

text \<open>Lines 233 to 244: the entries that get a list item; \<open>seen\<close> holds the names
  already written.\<close>

fun dedup :: "string set \<Rightarrow> entry list \<Rightarrow> entry list" where
  "dedup seen [] = []"
| "dedup seen (e # es) =
     (if Name e \<in> seen then dedup seen es
      else e # dedup (insert (Name e) seen) es)"

text \<open>Lines 250 to 258: the first repository in which \<open>Store.Get\<close> finds the file.\<close>

fun get_repos :: "store \<Rightarrow> string \<Rightarrow> string list \<Rightarrow> string option" where
  "get_repos st artifact [] = None"
| "get_repos st artifact (repo # repos) =
     (case store_Get st (trim_right CHR ''/'' repo @ ''/'' @ artifact) of
        (reader, found, err) \<Rightarrow>
          if err = None \<and> found then Some reader else get_repos st artifact repos)"

text \<open>
  \<open>HandleAggregateDownload\<close>, lines 208 to 290; \<open>param\<close> is \<open>c.Param("path")\<close>. The
  heading of an aggregate index is written with the fixed prefix
  \<open>repository/maven-public/\<close>.
\<close>

definition HandleAggregateDownload ::
  "store \<Rightarrow> config \<Rightarrow> client \<Rightarrow> string \<Rightarrow> string \<Rightarrow> outcome" where
  "HandleAggregateDownload st cfg cl basePath param =
     (let artifact = TrimPrefix param ''/'';
          repos = getAggregateRepos st basePath in
      case collect_listings st artifact repos of
        (allEntries, True) \<Rightarrow>
          \<lparr>resp = HtmlIndex (''repository/maven-public/'' @ artifact) (dedup {} allEntries),
           upstream = [], saved = []\<rparr>
      | (allEntries, False) \<Rightarrow>
          (case get_repos st artifact repos of
             Some reader \<Rightarrow> \<lparr>resp = FileStream reader, upstream = [], saved = []\<rparr>
           | None \<Rightarrow>
               (case (if length (ProxyURLs cfg) > 0
                      then get_mirrors cl artifact (ProxyURLs cfg)
                      else (None, [])) of
                  (Some (url, r), reqs) \<Rightarrow>
                    \<lparr>resp = Proxied url (ContentType r) (Body r), upstream = reqs,
                     saved = [''repository/maven-public/'' @ artifact]\<rparr>
                | (None, reqs) \<Rightarrow> \<lparr>resp = Status 404, upstream = reqs, saved = []\<rparr>)))"

text \<open>The listing one repository adds to \<open>allEntries\<close>: nothing when \<open>List\<close> fails or
  returns nil.\<close>

definition listing_of :: "store \<Rightarrow> string \<Rightarrow> string \<Rightarrow> entry list" where
  "listing_of st artifact repo =
     (case store_List st (trim_right CHR ''/'' repo @ ''/'' @ artifact) of
        (Some entries, None) \<Rightarrow> entries
      | _ \<Rightarrow> [])"

section \<open>service/cleanup.go and handler/admin.go: the retention controller\<close>

text \<open>
  The state of the service that the loop of \<open>Start\<close> and the admin operations share:
  the flag \<open>Paused\<close> (read and written under the mutex), whether \<open>Cancel\<close> has been
  called, and how many loop goroutines run (each \<open>Start\<close> of an enabled service
  launches one).
\<close>

record service =
  Paused :: bool
  Cancelled :: bool
  Loops :: nat

text \<open>
  The steps that are atomic for the flag. \<open>Tick\<close>: a loop receives from its ticker,
  reads \<open>Paused\<close> under the mutex and, if it read false, goes on to call
  \<open>RunCleanup\<close>. \<open>Done\<close>: a loop receives from \<open>Ctx.Done()\<close> and returns.
  \<open>Trigger\<close>: the admin handler \<open>TriggerCleanup\<close> starts a goroutine that calls
  \<open>RunCleanup\<close>. The others are the methods of the same name.
\<close>

datatype event = Start | Stop | Pause | Resume | Tick | Done | Trigger

datatype invocation = ByTicker | ByTrigger

text \<open>One step: the new state and the call of \<open>RunCleanup\<close> the step leads to, if any.
  A \<open>Tick\<close> needs a running loop, a \<open>Done\<close> a running loop and a cancelled context.\<close>

definition step :: "config \<Rightarrow> service \<Rightarrow> event \<Rightarrow> service \<times> invocation option" where
  "step cfg s ev =
     (case ev of
        Start \<Rightarrow>
          if \<not> SnapshotCleanupEnabled cfg then (s, None)
          else (s\<lparr>Loops := Suc (Loops s)\<rparr>, None)
      | Stop \<Rightarrow> (s\<lparr>Cancelled := True\<rparr>, None)
      | Pause \<Rightarrow> (s\<lparr>Paused := True\<rparr>, None)
      | Resume \<Rightarrow> (s\<lparr>Paused := False\<rparr>, None)
      | Tick \<Rightarrow>
          if Loops s = 0 then (s, None)
          else if \<not> Paused s then (s, Some ByTicker)
          else (s, None)
      | Done \<Rightarrow>
          if Loops s > 0 \<and> Cancelled s then (s\<lparr>Loops := Loops s - 1\<rparr>, None)
          else (s, None)
      | Trigger \<Rightarrow> (s, Some ByTrigger))"



text \<open>\<open>Status\<close>, lines 95 to 102.\<close>

definition Status_of :: "service \<Rightarrow> string" where
  "Status_of s = (if Paused s then ''paused'' else ''running'')"

section \<open>The groups of a listing, described directly\<close>

text \<open>
  The entries \<open>cleanupDir\<close> groups, the files of the group with key \<open>k\<close> in listing
  order, and the version record of that group. The lemmas below show that the loops of
  \<open>cleanupDir\<close> compute these.
\<close>

definition grouped :: "entry \<Rightarrow> bool" where
  "grouped e = (\<not> IsDir e \<and> \<not> prefix ''maven-metadata'' (Name e))"

definition files_of :: "entry list \<Rightarrow> string \<Rightarrow> fileInfo list" where
  "files_of entries k =
     map (\<lambda>e. \<lparr>fi_Name = Name e, fi_ModTime = ModTime e\<rparr>)
         (filter (\<lambda>e. grouped e \<and> extractVersion (Name e) = k) entries)"

definition version_of :: "entry list \<Rightarrow> string \<Rightarrow> versionInfo" where
  "version_of entries k =
     \<lparr>v_Name = k, MaxTime = maxTime_of (files_of entries k), Files = files_of entries k\<rparr>"

section \<open>Example data\<close>

text \<open>Entries and a store whose directories are given by an association list, for the
  concrete runs below. The store holds no files.\<close>

definition ex_dir :: "string \<Rightarrow> entry" where
  "ex_dir n = \<lparr>Name = n, IsDir = True, Size = 4096, ModTime = 1\<rparr>"

definition ex_file :: "string \<Rightarrow> int \<Rightarrow> time \<Rightarrow> entry" where
  "ex_file n sz t = \<lparr>Name = n, IsDir = False, Size = sz, ModTime = t\<rparr>"

definition ex_store :: "(string \<times> entry list) list \<Rightarrow> store" where
  "ex_store dirs =
     \<lparr>store_List = (\<lambda>p. (map_of dirs p, None)),
      store_Get = (\<lambda>p. ([], False, None)),
      store_Head = (\<lambda>p. (False, None))\<rparr>"

definition ex_repos :: store where
  "ex_repos = ex_store
     [(''repository'', [ex_dir ''develop'', ex_dir ''maven-releases'']),
      (''repository/maven-releases/com/ex/a/1.0'', [ex_file ''a.jar'' 1 10, ex_file ''a.pom'' 2 10]),
      (''repository/develop/com/ex/a/1.0'', [ex_file ''a.jar'' 7 20, ex_file ''b.jar'' 8 20])]"

definition ex_config :: config where
  "ex_config = \<lparr>ProxyURLs = [], SnapshotCleanupEnabled = True, SnapshotKeepDays = 0,
                 SnapshotKeepLatestOnly = True\<rparr>"

definition ex_client :: client where
  "ex_client = \<lparr>client_Get = (\<lambda>url. Inl (Error ''unreachable'')),
                 client_Head = (\<lambda>url. Inl (Error ''unreachable''))\<rparr>"

text \<open>A configuration with one mirror, and a mirror that has one artifact, at the root
  layout of a Maven repository.\<close>

definition ex_mirror_config :: config where
  "ex_mirror_config = \<lparr>ProxyURLs = [''https://repo1.maven.org/maven2/''],
      SnapshotCleanupEnabled = False, SnapshotKeepDays = 30, SnapshotKeepLatestOnly = False\<rparr>"

definition ex_mirror_answer :: "string \<Rightarrow> error + http_response" where
  "ex_mirror_answer url =
     (if url = ''https://repo1.maven.org/maven2/com/ex/a/1.0/a.jar''
      then Inr \<lparr>StatusCode = 200, ContentType = ''application/java-archive'', Body = ''PQR''\<rparr>
      else Inr \<lparr>StatusCode = 404, ContentType = ''text/plain'', Body = []\<rparr>)"

definition ex_mirror :: client where
  "ex_mirror = \<lparr>client_Get = ex_mirror_answer, client_Head = ex_mirror_answer\<rparr>"





text \<open>A configuration with the age rule only, and a snapshot directory whose one file
  is an hour older than the instant 63900000000000000000 (a day of the year 2025).\<close>

definition ex_keep_days :: "int \<Rightarrow> config" where
  "ex_keep_days K = \<lparr>ProxyURLs = [], SnapshotCleanupEnabled = True, SnapshotKeepDays = K,
                      SnapshotKeepLatestOnly = False\<rparr>"

definition ex_fresh :: store where
  "ex_fresh = ex_store [(''com/ex/app/1.0-SNAPSHOT'',
                         [ex_file ''app-1.0-SNAPSHOT.jar'' 13 63899996400000000000])]"

section \<open>Facts about the string functions\<close>

lemma split_on_not_Nil: "split_on c s \<noteq> []"
  by (induction s) (auto split: list.splits)

lemma split_on_no_sep: "c \<notin> set a \<Longrightarrow> split_on c a = [a]"
  by (induction a) auto

lemma split_on_append_sep:
  "c \<notin> set a \<Longrightarrow> split_on c (a @ c # b) = a # split_on c b"
  by (induction a) auto

lemma join_split_on: "join [c] (split_on c s) = s"
proof (induction s)
  case Nil
  show ?case by simp
next
  case (Cons x xs)
  obtain p ps where sp: "split_on c xs = p # ps"
    using split_on_not_Nil [of c xs] by (cases "split_on c xs") auto
  show ?case
  proof (cases "x = c")
    case True
    with Cons sp show ?thesis by simp
  next
    case False
    with Cons sp show ?thesis by (cases ps) auto
  qed
qed

lemma split_on_length_pos: "0 < length (split_on c s)"
  using split_on_not_Nil [of c s] by simp

section \<open>The artifact path of the upstream fallback\<close>

lemma artifactPath_repository:
  assumes "CHR ''/'' \<notin> set repo"
  shows "artifactPath (''repository/'' @ repo @ ''/'' @ rest) = rest"
proof -
  have sp: "split_on CHR ''/'' (''repository/'' @ repo @ ''/'' @ rest)
            = ''repository'' # repo # split_on CHR ''/'' rest"
    using split_on_append_sep [of "CHR ''/''" "''repository''" "repo @ ''/'' @ rest"]
          split_on_append_sep [OF assms, of rest]
    by simp
  have "drop 2 (split_on CHR ''/'' (''repository/'' @ repo @ ''/'' @ rest)) = split_on CHR ''/'' rest"
    unfolding sp by simp
  moreover have "2 < length (split_on CHR ''/'' (''repository/'' @ repo @ ''/'' @ rest))"
    unfolding sp using split_on_length_pos [of "CHR ''/''" rest] by simp
  moreover have "prefix ''repository/'' (''repository/'' @ repo @ ''/'' @ rest)"
    by simp
  ultimately show ?thesis
    using join_split_on [of "CHR ''/''" rest]
    unfolding artifactPath_def Let_def by (simp del: split_on.simps)
qed

lemma artifactPath_repository_short:
  assumes "CHR ''/'' \<notin> set repo"
  shows "artifactPath (''repository/'' @ repo) = ''repository/'' @ repo"
proof -
  have sp: "split_on CHR ''/'' (''repository/'' @ repo) = [''repository'', repo]"
    using split_on_append_sep [of "CHR ''/''" "''repository''" repo]
          split_on_no_sep [OF assms]
    by simp
  have "\<not> prefix ''public/'' (''repository/'' @ repo)" by simp
  then show ?thesis
    unfolding artifactPath_def Let_def sp by simp
qed

lemma artifactPath_public: "artifactPath (''public/'' @ rest) = rest"
proof -
  have sp: "split_on CHR ''/'' (''public/'' @ rest) = ''public'' # split_on CHR ''/'' rest"
    using split_on_append_sep [of "CHR ''/''" "''public''" rest] by simp
  have "\<not> prefix ''repository/'' (''public/'' @ rest)" by simp
  moreover have "1 < length (split_on CHR ''/'' (''public/'' @ rest))"
    unfolding sp using split_on_length_pos [of "CHR ''/''" rest] by simp
  moreover have "prefix ''public/'' (''public/'' @ rest)" by simp
  moreover have "drop 1 (split_on CHR ''/'' (''public/'' @ rest)) = split_on CHR ''/'' rest"
    unfolding sp by simp
  ultimately show ?thesis
    using join_split_on [of "CHR ''/''" rest]
    unfolding artifactPath_def Let_def by (simp del: split_on.simps)
qed

lemma artifactPath_other:
  "\<not> prefix ''repository/'' p \<Longrightarrow> \<not> prefix ''public/'' p \<Longrightarrow> artifactPath p = p"
  unfolding artifactPath_def Let_def by simp

text \<open>
  Claim C7, as the code has it. A path \<open>repository/<repo>/<rest>\<close>, where \<open><repo>\<close> is
  one segment, is sent to the mirrors as \<open><rest>\<close>: its first two segments are dropped.
  A path \<open>repository/<repo>\<close> of two segments only does not pass the guard
  \<open>len(parts) > 2\<close> and is sent unchanged. A path \<open>public/<rest>\<close> is sent as
  \<open><rest>\<close>. Every other path is sent unchanged.
\<close>

theorem artifactPath_strips_prefix:
  "(CHR ''/'' \<notin> set repo \<longrightarrow>
      artifactPath (''repository/'' @ repo @ ''/'' @ rest) = rest) \<and>
   (CHR ''/'' \<notin> set repo \<longrightarrow>
      artifactPath (''repository/'' @ repo) = ''repository/'' @ repo) \<and>
   artifactPath (''public/'' @ rest) = rest \<and>
   (\<not> prefix ''repository/'' p \<and> \<not> prefix ''public/'' p \<longrightarrow> artifactPath p = p)"
  using artifactPath_repository artifactPath_repository_short artifactPath_public
    artifactPath_other by blast

theorem artifactPath_strips_prefix_witness:
  "artifactPath ''repository/dev/com/ex/a/1.0/a.jar'' = ''com/ex/a/1.0/a.jar'' \<and>
   artifactPath ''repository/dev'' = ''repository/dev'' \<and>
   artifactPath ''public/com/ex/a.jar'' = ''com/ex/a.jar'' \<and>
   artifactPath ''com/ex/a.jar'' = ''com/ex/a.jar''"
  using artifactPath_strips_prefix [of "''dev''" "''com/ex/a/1.0/a.jar''" "''com/ex/a.jar''"]
        artifactPath_strips_prefix [of "''dev''" "''com/ex/a.jar''" "''com/ex/a.jar''"]
  by simp

text \<open>
  The claim as stated fails at the path \<open>repository/dev\<close>: it starts with
  \<open>repository/\<close>, dropping its first two segments leaves the empty path, and the code
  sends the path unchanged.
\<close>

theorem artifactPath_two_segments_counterexample:
  "prefix ''repository/'' ''repository/dev'' \<and>
   join ''/'' (drop 2 (split_on CHR ''/'' ''repository/dev'')) = [] \<and>
   artifactPath ''repository/dev'' = ''repository/dev''"
  by (simp add: artifactPath_def)

section \<open>The aggregate router\<close>

lemma trim_right_snoc: "x \<noteq> c \<Longrightarrow> trim_right c (s @ [x]) = s @ [x]"
  by (simp add: trim_right_def)

lemma trim_right_no_suffix: "\<not> suffix [c] s \<Longrightarrow> trim_right c s = s"
  by (cases s rule: rev_cases) (auto simp: trim_right_def)

lemma add_repo_step:
  "add_repo P (repos, h) e =
     (if IsDir e \<and> Name e \<noteq> ''maven-public'' \<and> Name e \<noteq> ''maven-releases''
      then repos @ [trim_right CHR ''/'' P @ ''/'' @ Name e] else repos,
      h \<or> (IsDir e \<and> Name e = ''maven-releases''))"
  by (simp add: add_repo_def)

lemma foldl_add_repo:
  "foldl (add_repo P) (repos, h) es =
     (repos @ map (\<lambda>e. trim_right CHR ''/'' P @ ''/'' @ Name e)
                (filter (\<lambda>e. IsDir e \<and> Name e \<noteq> ''maven-public'' \<and> Name e \<noteq> ''maven-releases'') es),
      h \<or> (\<exists>e\<in>set es. IsDir e \<and> Name e = ''maven-releases''))"
proof (induction es arbitrary: repos h)
  case Nil
  show ?case by simp
next
  case (Cons e es)
  show ?case
    by (simp add: add_repo_step Cons.IH)
qed

lemma getAggregateRepos_eq:
  assumes "store_List st P = (entries, None)"
  shows "getAggregateRepos st P =
        (if \<exists>e\<in>set (elems entries). IsDir e \<and> Name e = ''maven-releases''
         then [trim_right CHR ''/'' P @ ''/maven-releases''] else []) @
        map (\<lambda>e. trim_right CHR ''/'' P @ ''/'' @ Name e)
            (filter (\<lambda>e. IsDir e \<and> Name e \<noteq> ''maven-public'' \<and> Name e \<noteq> ''maven-releases'')
                    (elems entries))"
  using assms by (simp add: getAggregateRepos_def foldl_add_repo)

text \<open>
  Claim C5, as the code has it. When the listing of the base prefix \<open>P\<close> fails, no
  repository is returned. Otherwise the result is, in this order: the path of
  \<open>maven-releases\<close> if the listing has a directory of that name, then the paths of the
  other directories of the listing, \<open>maven-public\<close> left out, in listing order; an
  entry that is not a directory adds nothing. Each path is \<open>P\<close> without its trailing
  slashes, a slash and the name; that is \<open>P + "/" + name\<close> when \<open>P\<close> does not end
  with a slash.
\<close>

theorem getAggregateRepos_listing:
  "(snd (store_List st P) \<noteq> None \<longrightarrow> getAggregateRepos st P = []) \<and>
   (snd (store_List st P) = None \<longrightarrow>
      getAggregateRepos st P =
        (if \<exists>e\<in>set (elems (fst (store_List st P))). IsDir e \<and> Name e = ''maven-releases''
         then [trim_right CHR ''/'' P @ ''/maven-releases''] else []) @
        map (\<lambda>e. trim_right CHR ''/'' P @ ''/'' @ Name e)
            (filter (\<lambda>e. IsDir e \<and> Name e \<noteq> ''maven-public'' \<and> Name e \<noteq> ''maven-releases'')
                    (elems (fst (store_List st P))))) \<and>
   (\<not> suffix ''/'' P \<longrightarrow> trim_right CHR ''/'' P = P)"
proof (intro conjI impI)
  assume "snd (store_List st P) \<noteq> None"
  then show "getAggregateRepos st P = []"
    by (cases "store_List st P") (auto simp: getAggregateRepos_def)
next
  assume "snd (store_List st P) = None"
  then have "store_List st P = (fst (store_List st P), None)"
    by (cases "store_List st P") simp
  then show "getAggregateRepos st P =
        (if \<exists>e\<in>set (elems (fst (store_List st P))). IsDir e \<and> Name e = ''maven-releases''
         then [trim_right CHR ''/'' P @ ''/maven-releases''] else []) @
        map (\<lambda>e. trim_right CHR ''/'' P @ ''/'' @ Name e)
            (filter (\<lambda>e. IsDir e \<and> Name e \<noteq> ''maven-public'' \<and> Name e \<noteq> ''maven-releases'')
                    (elems (fst (store_List st P))))"
    by (rule getAggregateRepos_eq)
next
  assume "\<not> suffix ''/'' P"
  then show "trim_right CHR ''/'' P = P"
    by (rule trim_right_no_suffix)
qed

theorem getAggregateRepos_listing_witness:
  "getAggregateRepos
     (ex_store [(''repository'', [ex_dir ''develop'', ex_file ''notes.txt'' 3 1, ex_dir ''maven-public'',
                                  ex_dir ''maven-releases'', ex_dir ''snapshots''])])
     ''repository''
   = [''repository/maven-releases'', ''repository/develop'', ''repository/snapshots'']"
  using getAggregateRepos_listing [of
     "ex_store [(''repository'', [ex_dir ''develop'', ex_file ''notes.txt'' 3 1, ex_dir ''maven-public'',
                                  ex_dir ''maven-releases'', ex_dir ''snapshots''])]"
     "''repository''"]
  by (simp add: ex_store_def ex_dir_def ex_file_def elems_def trim_right_def)

text \<open>
  The claim as stated fails at the base prefix \<open>repository/\<close>, the example of the
  comment on line 212: the paths returned have one slash where \<open>P + "/" + name\<close> has two.
\<close>

theorem getAggregateRepos_trailing_slash_counterexample:
  "getAggregateRepos (ex_store [(''repository/'', [ex_dir ''maven-releases'', ex_dir ''develop''])])
     ''repository/''
   = [''repository/maven-releases'', ''repository/develop''] \<and>
   [''repository/maven-releases'', ''repository/develop'']
   \<noteq> map (\<lambda>name. ''repository/'' @ ''/'' @ name) [''maven-releases'', ''develop'']"
  by (simp add: getAggregateRepos_def ex_store_def ex_dir_def elems_def add_repo_def trim_right_def)

section \<open>The aggregate index\<close>

lemma add_listing_step:
  "add_listing st a (allEntries, f) repo =
     (allEntries @ listing_of st a repo,
      f \<or> (\<exists>es. store_List st (trim_right CHR ''/'' repo @ ''/'' @ a) = (Some es, None)))"
  by (auto simp: add_listing_def listing_of_def split: prod.splits option.splits)

lemma foldl_add_listing:
  "foldl (add_listing st a) (allEntries, f) repos =
     (allEntries @ concat (map (listing_of st a) repos),
      f \<or> (\<exists>repo\<in>set repos. \<exists>es. store_List st (trim_right CHR ''/'' repo @ ''/'' @ a) = (Some es, None)))"
proof (induction repos arbitrary: allEntries f)
  case Nil
  show ?case by simp
next
  case (Cons r repos)
  show ?case
    by (simp add: add_listing_step Cons.IH)
qed

lemma collect_listings_fst:
  "fst (collect_listings st a repos) = concat (map (listing_of st a) repos)"
  by (simp add: collect_listings_def foldl_add_listing)

lemma dedup_names: "Name ` set (dedup seen es) = Name ` set es - seen"
  by (induction es arbitrary: seen) auto

lemma dedup_distinct: "distinct (map Name (dedup seen es))"
proof (induction es arbitrary: seen)
  case Nil
  show ?case by simp
next
  case (Cons e es)
  have "Name e \<notin> Name ` set (dedup (insert (Name e) seen) es)"
    by (simp add: dedup_names)
  with Cons show ?case by simp
qed

lemma dedup_find:
  "n \<notin> seen \<Longrightarrow> find (\<lambda>e. Name e = n) (dedup seen es) = find (\<lambda>e. Name e = n) es"
proof (induction es arbitrary: seen)
  case Nil
  show ?case by simp
next
  case (Cons e es)
  show ?case
  proof (cases "Name e = n")
    case True
    with Cons.prems show ?thesis by simp
  next
    case False
    with Cons show ?thesis by simp
  qed
qed

lemma dedup_subseq: "subseq (dedup seen es) es"
  by (induction es arbitrary: seen) auto

lemma find_append_first:
  "e \<in> set es \<Longrightarrow> find (\<lambda>x. Name x = Name e) (es @ fs) = find (\<lambda>x. Name x = Name e) es"
  by (induction es) auto

lemma aggregate_index_entries:
  assumes "resp (HandleAggregateDownload st cfg cl basePath param) = HtmlIndex title shown"
  shows "shown = dedup {} (concat (map (listing_of st (TrimPrefix param ''/''))
                                        (getAggregateRepos st basePath)))"
proof -
  let ?a = "TrimPrefix param ''/''"
  let ?repos = "getAggregateRepos st basePath"
  obtain allEntries foundDir where c: "collect_listings st ?a ?repos = (allEntries, foundDir)"
    by (cases "collect_listings st ?a ?repos") auto
  have all: "allEntries = concat (map (listing_of st ?a) ?repos)"
    using collect_listings_fst [of st ?a ?repos] c by simp
  show ?thesis
    using assms c all
    unfolding HandleAggregateDownload_def Let_def
    by (auto split: bool.splits option.splits prod.splits if_splits)
qed

text \<open>
  Claim C6. Whenever the aggregate handler answers with an index, no two of its entries
  have the same name; the entries are the listings of the repositories, in the order
  of \<open>getAggregateRepos\<close>, with later duplicates left out, so for every name the
  entry shown is the first one of that name in that order; and when the base listing
  has the directory \<open>maven-releases\<close> and that repository lists the path, every name
  it lists is shown with the entry of \<open>maven-releases\<close>.
\<close>

theorem aggregate_index_dedup:
  assumes "resp (HandleAggregateDownload st cfg cl basePath param) = HtmlIndex title shown"
  shows "distinct (map Name shown) \<and>
     subseq shown (concat (map (listing_of st (TrimPrefix param ''/''))
                               (getAggregateRepos st basePath))) \<and>
     (\<forall>n. find (\<lambda>x. Name x = n) shown =
           find (\<lambda>x. Name x = n)
             (concat (map (listing_of st (TrimPrefix param ''/''))
                          (getAggregateRepos st basePath)))) \<and>
     (\<forall>rel es e.
        snd (store_List st basePath) = None \<and>
        rel \<in> set (elems (fst (store_List st basePath))) \<and>
        IsDir rel \<and> Name rel = ''maven-releases'' \<and>
        store_List st (trim_right CHR ''/'' basePath @ ''/maven-releases/'' @ TrimPrefix param ''/'')
          = (Some es, None) \<and>
        e \<in> set es
        \<longrightarrow> find (\<lambda>x. Name x = Name e) shown = find (\<lambda>x. Name x = Name e) es)"
proof -
  let ?a = "TrimPrefix param ''/''"
  let ?repos = "getAggregateRepos st basePath"
  let ?all = "concat (map (listing_of st ?a) ?repos)"
  have shown: "shown = dedup {} ?all"
    using assms by (rule aggregate_index_entries)
  have d: "distinct (map Name shown)"
    unfolding shown by (rule dedup_distinct)
  have s: "subseq shown ?all"
    unfolding shown by (rule dedup_subseq)
  have f: "\<forall>n. find (\<lambda>x. Name x = n) shown = find (\<lambda>x. Name x = n) ?all"
    unfolding shown by (simp add: dedup_find)
  have r: "find (\<lambda>x. Name x = Name e) shown = find (\<lambda>x. Name x = Name e) es"
    if noerr: "snd (store_List st basePath) = None"
      and rel: "rel \<in> set (elems (fst (store_List st basePath)))" "IsDir rel"
               "Name rel = ''maven-releases''"
      and es: "store_List st (trim_right CHR ''/'' basePath @ ''/maven-releases/'' @ ?a)
                 = (Some es, None)"
      and e: "e \<in> set es"
    for rel es e
  proof -
    have l: "store_List st basePath = (fst (store_List st basePath), None)"
      using noerr by (cases "store_List st basePath") simp
    have ex: "\<exists>e\<in>set (elems (fst (store_List st basePath))). IsDir e \<and> Name e = ''maven-releases''"
      using rel by blast
    have "\<exists>others. ?repos = (trim_right CHR ''/'' basePath @ ''/maven-releases'') # others"
      unfolding getAggregateRepos_eq [OF l] using ex by simp
    then obtain others
      where repos: "?repos = (trim_right CHR ''/'' basePath @ ''/maven-releases'') # others"
      by blast
    have "trim_right CHR ''/'' (trim_right CHR ''/'' basePath @ ''/maven-releases'')
            = trim_right CHR ''/'' basePath @ ''/maven-releases''"
      using trim_right_snoc [of "CHR ''s''" "CHR ''/''" "trim_right CHR ''/'' basePath @ ''/maven-release''"]
      by simp
    then have "listing_of st ?a (trim_right CHR ''/'' basePath @ ''/maven-releases'') = es"
      using es by (simp add: listing_of_def)
    then have "?all = es @ concat (map (listing_of st ?a) others)"
      unfolding repos by simp
    then show ?thesis
      using f find_append_first [OF e] by simp
  qed
  from d s f r show ?thesis by blast
qed

lemma ex_repos_index:
  "resp (HandleAggregateDownload ex_repos ex_config ex_client ''repository'' ''/com/ex/a/1.0'')
     = HtmlIndex ''repository/maven-public/com/ex/a/1.0''
         [ex_file ''a.jar'' 1 10, ex_file ''a.pom'' 2 10, ex_file ''b.jar'' 8 20]"
  by (simp add: HandleAggregateDownload_def ex_repos_def ex_store_def getAggregateRepos_def
      elems_def add_repo_def ex_dir_def ex_file_def trim_right_def TrimPrefix_def
      collect_listings_def add_listing_def)

theorem aggregate_index_dedup_witness:
  "resp (HandleAggregateDownload ex_repos ex_config ex_client ''repository'' ''/com/ex/a/1.0'')
     = HtmlIndex ''repository/maven-public/com/ex/a/1.0''
         [ex_file ''a.jar'' 1 10, ex_file ''a.pom'' 2 10, ex_file ''b.jar'' 8 20] \<and>
   distinct (map Name [ex_file ''a.jar'' 1 10, ex_file ''a.pom'' 2 10, ex_file ''b.jar'' 8 20]) \<and>
   find (\<lambda>x. Name x = ''a.jar'') [ex_file ''a.jar'' 1 10, ex_file ''a.pom'' 2 10, ex_file ''b.jar'' 8 20]
     = Some (ex_file ''a.jar'' 1 10)"
  using aggregate_index_dedup [OF ex_repos_index]
  by (simp add: ex_repos_index ex_file_def)

section \<open>The direct handlers\<close>

text \<open>Both loops over the mirrors send requests for one path only: the HEAD handler for
  the request path, the GET handler for the artifact path. The HEAD handler saves nothing.\<close>

lemma head_mirrors_requests:
  "set (snd (head_mirrors cl p proxies))
     \<subseteq> (\<lambda>proxy. HEAD (trim_right CHR ''/'' proxy @ ''/'' @ p)) ` set proxies"
  by (induction proxies) (auto simp: Let_def split: sum.splits prod.splits)

lemma get_mirrors_requests:
  "set (snd (get_mirrors cl a proxies))
     \<subseteq> (\<lambda>proxy. GET (trim_right CHR ''/'' proxy @ ''/'' @ a)) ` set proxies"
  by (induction proxies) (auto simp: Let_def split: sum.splits prod.splits)

lemma HandleHead_requests:
  "set (upstream (HandleHead st cfg cl u))
     \<subseteq> (\<lambda>proxy. HEAD (trim_right CHR ''/'' proxy @ ''/'' @ TrimPrefix u ''/'')) ` set (ProxyURLs cfg)"
  using head_mirrors_requests [of cl "TrimPrefix u ''/''" "ProxyURLs cfg"]
  unfolding HandleHead_def Let_def
  by (auto split: prod.splits bool.splits option.splits if_splits)

lemma HandleHead_saves_nothing: "saved (HandleHead st cfg cl u) = []"
  unfolding HandleHead_def Let_def
  by (auto split: prod.splits bool.splits option.splits if_splits)

lemma HandleDownload_requests:
  "set (upstream (HandleDownload st cfg cl u))
     \<subseteq> (\<lambda>proxy. GET (trim_right CHR ''/'' proxy @ ''/'' @ artifactPath (TrimPrefix u ''/'')))
          ` set (ProxyURLs cfg)"
  using get_mirrors_requests [of cl "artifactPath (TrimPrefix u ''/'')" "ProxyURLs cfg"]
  unfolding HandleDownload_def fileProbe_def Let_def
  by (auto split: prod.splits bool.splits option.splits if_splits)

text \<open>
  Claim C8 at a concrete request. The store holds nothing and the one mirror has the
  artifact \<open>com/ex/a/1.0/a.jar\<close>. For the request path
  \<open>/repository/dev/com/ex/a/1.0/a.jar\<close> the GET handler strips the prefix, asks the
  mirror for the artifact path and passes the artifact on; the HEAD handler asks the
  mirror for the whole request path, prefix included, and answers 404.
\<close>

theorem HandleHead_keeps_prefix:
  "HandleHead (ex_store []) ex_mirror_config ex_mirror ''/repository/dev/com/ex/a/1.0/a.jar''
     = \<lparr>resp = Status 404,
        upstream = [HEAD ''https://repo1.maven.org/maven2/repository/dev/com/ex/a/1.0/a.jar''],
        saved = []\<rparr> \<and>
   HandleDownload (ex_store []) ex_mirror_config ex_mirror ''/repository/dev/com/ex/a/1.0/a.jar''
     = \<lparr>resp = Proxied ''https://repo1.maven.org/maven2/com/ex/a/1.0/a.jar''
                ''application/java-archive'' ''PQR'',
        upstream = [GET ''https://repo1.maven.org/maven2/com/ex/a/1.0/a.jar''],
        saved = [''repository/dev/com/ex/a/1.0/a.jar'']\<rparr>"
  by (simp add: HandleHead_def HandleDownload_def fileProbe_def ex_store_def ex_mirror_config_def
      ex_mirror_def ex_mirror_answer_def TrimPrefix_def trim_right_def artifactPath_def Let_def)

section \<open>The retention controller\<close>






section \<open>Empty directories\<close>







section \<open>\<open>extractVersion\<close> and the patterns\<close>

lemma takeWhile_length_ge:
  "n \<le> length (takeWhile P s) \<longleftrightarrow> (\<exists>d r. s = d @ r \<and> length d = n \<and> (\<forall>x\<in>set d. P x))"
proof
  assume n: "n \<le> length (takeWhile P s)"
  have "take n s = take n (takeWhile P s)"
    using n by (metis takeWhile_dropWhile_id take_append diff_is_0_eq take_0 append_Nil2)
  then have "\<forall>x\<in>set (take n s). P x"
    by (metis in_set_takeD set_takeWhileD)
  moreover have "length (take n s) = n"
    using n length_takeWhile_le [of P s] by simp
  ultimately show "\<exists>d r. s = d @ r \<and> length d = n \<and> (\<forall>x\<in>set d. P x)"
    by (metis append_take_drop_id)
next
  assume "\<exists>d r. s = d @ r \<and> length d = n \<and> (\<forall>x\<in>set d. P x)"
  then obtain d r where "s = d @ r" "length d = n" "\<forall>x\<in>set d. P x" by blast
  then show "n \<le> length (takeWhile P s)"
    by (simp add: takeWhile_append2)
qed

lemma takeWhile_all: "(\<forall>x\<in>set s. P x) \<longleftrightarrow> length (takeWhile P s) = length s"
  by (metis length_takeWhile_le takeWhile_eq_all_conv order_refl takeWhile_eq_take
      take_all_iff)

lemma concat_map_hd:
  assumes "xs = pre @ x # post" and "\<forall>y\<in>set pre. g y = []" and "g x \<noteq> []"
  shows "concat (map g xs) \<noteq> [] \<and> hd (concat (map g xs)) = hd (g x)"
proof -
  have "concat (map g pre) = []" using assms(2) by simp
  then have "concat (map g xs) = g x @ concat (map g post)"
    using assms(1) by simp
  with assms(3) show ?thesis by simp
qed

lemma concat_map_first:
  assumes "concat (map g xs) \<noteq> []"
  shows "\<exists>pre x post. xs = pre @ x # post \<and> (\<forall>y\<in>set pre. g y = []) \<and> g x \<noteq> []"
proof -
  from assms have "\<exists>x\<in>set xs. g x \<noteq> []" by auto
  from split_list_first_prop [OF this] show ?thesis by blast
qed

lemma descending_before:
  assumes "rev [1 ..< Suc N] = pre @ x # post"
  shows "(\<forall>y\<in>set pre. x < y) \<and> 1 \<le> x \<and> x \<le> N \<and> (\<forall>y. 1 \<le> y \<and> y \<le> N \<and> y \<notin> set pre \<longrightarrow> y \<le> x)"
proof -
  have s: "sorted_wrt (\<lambda>a b. b < a) (rev [1 ..< Suc N])"
    by (simp only: sorted_wrt_rev sorted_wrt_upt)
  then have a: "\<forall>y\<in>set pre. x < y" and b: "\<forall>z\<in>set post. z < x"
    unfolding assms by (auto simp: sorted_wrt_append)
  have x: "x \<in> set (rev [1 ..< Suc N])" unfolding assms by simp
  then have r: "1 \<le> x \<and> x \<le> N" by auto
  have "y \<le> x" if "1 \<le> y" "y \<le> N" "y \<notin> set pre" for y
  proof -
    from that have "y \<in> set (rev [1 ..< Suc N])" by auto
    then have "y = x \<or> y \<in> set post" using that(3) unfolding assms by auto
    with b show ?thesis by auto
  qed
  with a r show ?thesis by blast
qed

lemma uniqueSnapshotRegex_anchored: "uniqueSnapshotRegex = anchored timestamp_re"
  by (simp add: uniqueSnapshotRegex_def anchored_def timestamp_re_def rest_re_def)

lemma nonUniqueSnapshotRegex_anchored: "nonUniqueSnapshotRegex = anchored snapshot_re"
  by (simp add: nonUniqueSnapshotRegex_def anchored_def snapshot_re_def rest_re_def)

lemma no_newline_takeWhile:
  "no_newline s \<longleftrightarrow> length (takeWhile (accepts AnyNotNL) s) = length s"
  using takeWhile_all [of s "accepts AnyNotNL"] by (auto simp: no_newline_def)

lemma concat_map_if:
  "concat (map (\<lambda>n. if Q n then [h n] else []) xs) = map h (filter Q xs)"
  by (induction xs) auto

lemma filter_ge_upt:
  "M \<le> L \<Longrightarrow> filter (\<lambda>n. L \<le> n) (rev [0 ..< Suc M]) = (if M = L then [M] else [])"
  by (auto simp: filter_empty_conv)

text \<open>The third group and the end anchor: the rest of the name matches when it has no
  newline, in one way.\<close>

lemma run_rest:
  "run rest_re (p, r, c) =
     (if no_newline r then [(p + length r, [], c(3 := r))] else [])"
proof -
  let ?M = "length (takeWhile (accepts AnyNotNL) r)"
  have M: "?M \<le> length r" by (rule length_takeWhile_le)
  have "run rest_re (p, r, c) =
      concat (map (\<lambda>n. if length r \<le> n then [(p + n, drop n r, c(3 := take n r))] else [])
                  (rev [0 ..< Suc ?M]))"
    unfolding rest_re_def
    by (simp add: comp_def rev_map [symmetric] del: upt_Suc cong: map_cong)
  also have "\<dots> = map (\<lambda>n. (p + n, drop n r, c(3 := take n r)))
                      (filter (\<lambda>n. length r \<le> n) (rev [0 ..< Suc ?M]))"
    by (rule concat_map_if)
  also have "\<dots> = (if ?M = length r then [(p + length r, [], c(3 := r))] else [])"
    unfolding filter_ge_upt [OF M] by simp
  finally show ?thesis
    by (simp add: no_newline_takeWhile)
qed

lemma run_Concat_Class:
  "run (Concat (Class k) r) (p, s, c) =
     (case s of [] \<Rightarrow> [] | x # xs \<Rightarrow> if accepts k x then run r (Suc p, xs, c) else [])"
  by (simp split: list.splits)

lemma run_Concat_Repeat:
  "run (Concat (Repeat n k) r) (p, s, c) =
     (if n \<le> length (takeWhile (accepts k) s) then run r (p + n, drop n s, c) else [])"
  by simp

lemma run_Capture_Plus:
  "run (Concat (Capture i (Plus k)) r) (p, s, c) =
     concat (map (\<lambda>n. run r (p + n, drop n s, c(i := take n s)))
                 (rev [1 ..< Suc (length (takeWhile (accepts k) s))]))"
  by (simp add: comp_def rev_map [symmetric] del: upt_Suc)

lemma run_Bol: "run (Concat Bol r) (p, s, c) = (if p = 0 then run r (p, s, c) else [])"
  by simp

text \<open>A pattern that starts with \<open>^\<close> matches at offset 0 or not at all.\<close>

lemma submatch_at_anchored_later:
  "0 < i \<Longrightarrow> submatch_at (anchored g) s i = []"
  by (simp add: submatch_at_def anchored_def)

lemma FindStringSubmatch_anchored:
  "FindStringSubmatch (anchored g) s =
     (case submatch_at (anchored g) s 0 of [] \<Rightarrow> None | m # _ \<Rightarrow> Some m)"
proof -
  have z: "concat (map (submatch_at (anchored g) s) [1 ..< Suc (length s)]) = []"
    by (simp add: submatch_at_anchored_later del: upt_Suc)
  have e: "[0 ..< Suc (length s)] = 0 # [1 ..< Suc (length s)]"
    by (simp add: upt_rec)
  have "concat (map (submatch_at (anchored g) s) [0 ..< Suc (length s)])
          = submatch_at (anchored g) s 0"
    unfolding e using z by (simp only: list.map concat.simps append_Nil2)
  then show ?thesis
    unfolding FindStringSubmatch_def by (simp only:)
qed

text \<open>
  The matcher on an anchored pattern: the first group takes \<open>n\<close> bytes, for \<open>n\<close> from
  the longest newline-free prefix down to 1, and the tail runs on what is left. The
  match returned is the first result of the first \<open>n\<close> for which the tail succeeds.
\<close>

lemma run_anchored:
  "run (anchored g) (0, s, c) =
     concat (map (\<lambda>n. run (tail_re g) (n, drop n s, c(1 := take n s)))
                 (rev [1 ..< Suc (length (takeWhile (accepts AnyNotNL) s))]))"
  unfolding anchored_def tail_re_def run_Bol run_Capture_Plus by simp

lemma anchored_none:
  assumes "\<And>n. 1 \<le> n \<Longrightarrow> n \<le> length (takeWhile (accepts AnyNotNL) s) \<Longrightarrow>
             run (tail_re g) (n, drop n s, (\<lambda>_. [])(1 := take n s)) = []"
  shows "FindStringSubmatch (anchored g) s = None"
proof -
  have "run (anchored g) (0, s, \<lambda>_. []) = []"
    unfolding run_anchored using assms by auto
  then show ?thesis
    by (simp add: FindStringSubmatch_anchored submatch_at_def)
qed

lemma anchored_some:
  assumes n: "1 \<le> n" "n \<le> length (takeWhile (accepts AnyNotNL) s)"
    and ok: "run (tail_re g) (n, drop n s, (\<lambda>_. [])(1 := take n s)) \<noteq> []"
  shows "\<exists>k st. n \<le> k \<and> k \<le> length (takeWhile (accepts AnyNotNL) s) \<and>
           run (tail_re g) (k, drop k s, (\<lambda>_. [])(1 := take k s)) = st # tl (run (tail_re g) (k, drop k s, (\<lambda>_. [])(1 := take k s))) \<and>
           FindStringSubmatch (anchored g) s =
             Some [take (fst st) s, snd (snd st) 1, snd (snd st) 2, snd (snd st) 3]"
proof -
  let ?N = "length (takeWhile (accepts AnyNotNL) s)"
  let ?G = "\<lambda>n. run (tail_re g) (n, drop n s, (\<lambda>_. [])(1 := take n s))"
  define L where "L = concat (map ?G (rev [1 ..< Suc ?N]))"
  have nin: "n \<in> set (rev [1 ..< Suc ?N])" using n by auto
  have ne': "concat (map ?G (rev [1 ..< Suc ?N])) \<noteq> []"
    using nin ok by (auto simp del: upt_Suc)
  then have ne: "L \<noteq> []" unfolding L_def .
  from concat_map_first [OF ne'] obtain pre k post where
    sp: "rev [1 ..< Suc ?N] = pre @ k # post" "\<forall>y\<in>set pre. ?G y = []" "?G k \<noteq> []"
    by blast
  from descending_before [OF sp(1)] have k: "1 \<le> k" "k \<le> ?N"
    and mx: "\<forall>y. 1 \<le> y \<and> y \<le> ?N \<and> y \<notin> set pre \<longrightarrow> y \<le> k" by auto
  have "n \<notin> set pre" using sp(2) ok by auto
  with mx n have nk: "n \<le> k" by blast
  from concat_map_hd [OF sp] have hd: "hd L = hd (?G k)"
    unfolding L_def by blast
  obtain st where st: "?G k = st # tl (?G k)" "hd (?G k) = st"
    using sp(3) by (cases "?G k") auto
  have r: "run (anchored g) (0, s, \<lambda>_. []) = L"
    unfolding L_def by (rule run_anchored)
  have "FindStringSubmatch (anchored g) s =
          Some [take (fst st) s, snd (snd st) 1, snd (snd st) 2, snd (snd st) 3]"
    using ne hd st(2)
    unfolding FindStringSubmatch_anchored submatch_at_def
    by (cases L) (auto simp: case_prod_beta r)
  with nk k st(1) show ?thesis by blast
qed

lemma run_tail:
  "run (tail_re g) (p, t, c) =
     (case t of
        [] \<Rightarrow> []
      | x # t1 \<Rightarrow>
          if x = CHR ''-''
          then concat (map (run rest_re)
                 (map (\<lambda>(p', s', c'). (p', s', c'(2 := take (p' - Suc p) t1)))
                      (run g (Suc p, t1, c))))
          else [])"
  unfolding tail_re_def run_Concat_Class by (simp split: list.splits)

text \<open>The tail of the non-unique pattern succeeds in one way, on \<open>-SNAPSHOT\<close> followed
  by text without newline.\<close>

lemma run_snapshot:
  "run snapshot_re (q, t, c) =
     (if prefix ''SNAPSHOT'' t then [(q + 8, drop 8 t, c)] else [])"
  unfolding snapshot_re_def
  by (auto split: list.splits)

lemma run_tail_snapshot:
  "run (tail_re snapshot_re) (p, t, c) =
     (if prefix ''-SNAPSHOT'' t \<and> no_newline (drop 9 t)
      then [(p + length t, [], c(2 := ''SNAPSHOT'', 3 := drop 9 t))] else [])"
proof (cases t)
  case Nil
  then show ?thesis by (simp add: run_tail)
next
  case (Cons x t1)
  show ?thesis
  proof (cases "x = CHR ''-'' \<and> prefix ''SNAPSHOT'' t1")
    case False
    then show ?thesis
      unfolding Cons by (auto simp: run_tail run_snapshot)
  next
    case True
    then obtain r where t1: "t1 = ''SNAPSHOT'' @ r"
      by (auto simp: prefix_def)
    show ?thesis
      unfolding Cons t1 using True
      by (simp add: run_tail run_snapshot run_rest)
  qed
qed

text \<open>
  The tail of the unique pattern: the timestamp up to its last hyphen is read in one
  way, and the build number takes \<open>j\<close> digits, for \<open>j\<close> from the number of digits
  that follow down to 1.
\<close>

lemma digits_takeWhile:
  "digits d \<Longrightarrow> length d \<le> length (takeWhile (accepts Digit) (d @ r))"
  by (simp add: digits_def takeWhile_append2)

lemma run_Concat_Repeat_append:
  "length d = n \<Longrightarrow> \<forall>x\<in>set d. accepts k x \<Longrightarrow>
   run (Concat (Repeat n k) r) (p, d @ s, c) = run r (p + n, s, c)"
  unfolding run_Concat_Repeat by (simp add: takeWhile_append2)

lemma run_Concat_Class_cons:
  "accepts k x \<Longrightarrow> run (Concat (Class k) r) (p, x # s, c) = run r (Suc p, s, c)"
  unfolding run_Concat_Class by simp

lemma take_append_length: "length h = n \<Longrightarrow> take (n + j) (h @ u) = h @ take j u"
  by simp

lemma run_timestamp_match:
  assumes "length d8 = 8" "digits d8" "length d6 = 6" "digits d6"
  shows "run timestamp_re (q, d8 @ ''.'' @ d6 @ ''-'' @ u, c) =
           map (\<lambda>j. (q + 16 + j, drop j u, c))
               (rev [1 ..< Suc (length (takeWhile (accepts Digit) u))])"
proof -
  have d8: "\<forall>x\<in>set d8. accepts Digit x" and d6: "\<forall>x\<in>set d6. accepts Digit x"
    using assms(2,4) by (simp_all add: digits_def)
  have "run timestamp_re (q, d8 @ ''.'' @ d6 @ ''-'' @ u, c)
          = run (Plus Digit) (Suc (Suc (q + 8) + 6), u, c)"
    unfolding timestamp_re_def
    by (simp add: run_Concat_Repeat_append [OF assms(1) d8] run_Concat_Repeat_append [OF assms(3) d6]
        run_Concat_Class_cons del: run.simps)
  then show ?thesis
    by (simp add: add.assoc del: upt_Suc)
qed

lemma run_timestamp_form:
  assumes "run timestamp_re (q, t, c) \<noteq> []"
  shows "\<exists>d8 d6 u. t = d8 @ ''.'' @ d6 @ ''-'' @ u \<and>
           length d8 = 8 \<and> digits d8 \<and> length d6 = 6 \<and> digits d6"
proof -
  from assms have a: "8 \<le> length (takeWhile (accepts Digit) t)"
    and r1: "run (Concat (Class (Lit CHR ''.''))
                (Concat (Repeat 6 Digit) (Concat (Class (Lit CHR ''-'')) (Plus Digit))))
               (q + 8, drop 8 t, c) \<noteq> []"
    unfolding timestamp_re_def run_Concat_Repeat by (auto split: if_splits)
  from a obtain d8 r8 where t: "t = d8 @ r8" "length d8 = 8" "digits d8"
    unfolding takeWhile_length_ge digits_def by auto
  have d8: "drop 8 t = r8" using t by simp
  from r1 obtain t2 where r8: "r8 = CHR ''.'' # t2"
    and r2: "run (Concat (Repeat 6 Digit) (Concat (Class (Lit CHR ''-'')) (Plus Digit)))
               (Suc (q + 8), t2, c) \<noteq> []"
    unfolding d8 run_Concat_Class by (auto split: list.splits if_splits)
  from r2 have b: "6 \<le> length (takeWhile (accepts Digit) t2)"
    and r3: "run (Concat (Class (Lit CHR ''-'')) (Plus Digit)) (Suc (q + 8) + 6, drop 6 t2, c) \<noteq> []"
    unfolding run_Concat_Repeat by (auto split: if_splits)
  from b obtain d6 r6 where t2: "t2 = d6 @ r6" "length d6 = 6" "digits d6"
    unfolding takeWhile_length_ge digits_def by auto
  have d6: "drop 6 t2 = r6" using t2 by simp
  from r3 obtain u where r6: "r6 = CHR ''-'' # u"
    unfolding d6 run_Concat_Class by (auto split: list.splits if_splits)
  have "t = d8 @ ''.'' @ d6 @ ''-'' @ u"
    using t(1) r8 t2(1) r6 by simp
  with t(2,3) t2(2,3) show ?thesis by blast
qed

lemma digit_not_newline: "x \<in> set ''0123456789'' \<Longrightarrow> x \<noteq> CHR 0x0A"
  by auto

lemma no_newline_drop_mono: "j \<le> k \<Longrightarrow> no_newline (drop j u) \<Longrightarrow> no_newline (drop k u)"
  unfolding no_newline_def using set_drop_subset_set_drop [of j k u] by blast

lemma unique_tail_list:
  assumes "length d8 = 8" "digits d8" "length d6 = 6" "digits d6"
  shows "run (tail_re timestamp_re) (p, ''-'' @ d8 @ ''.'' @ d6 @ ''-'' @ u, c) =
     concat (map (\<lambda>j. if no_newline (drop j u)
                       then [(p + 17 + length u, [],
                              c(2 := d8 @ ''.'' @ d6 @ ''-'' @ take j u, 3 := drop j u))]
                       else [])
                 (rev [1 ..< Suc (length (takeWhile (accepts Digit) u))]))"
proof -
  define T where "T = d8 @ ''.'' @ d6 @ ''-'' @ u"
  define js where "js = rev [1 ..< Suc (length (takeWhile (accepts Digit) u))]"
  have le: "j \<le> length u" if "j \<in> set js" for j
    using that length_takeWhile_le [of "accepts Digit" u] unfolding js_def by auto
  have tk: "take (16 + j) T = d8 @ ''.'' @ d6 @ ''-'' @ take j u" for j
    unfolding T_def
    using take_append_length [of "d8 @ ''.'' @ d6 @ ''-''" 16 j u] assms(1,3) by simp
  have m: "run timestamp_re (Suc p, T, c) = map (\<lambda>j. (Suc p + 16 + j, drop j u, c)) js"
    unfolding T_def js_def by (rule run_timestamp_match [OF assms])
  have "run (tail_re timestamp_re) (p, CHR ''-'' # T, c) =
     concat (map (run rest_re)
       (map (\<lambda>(p', s', c'). (p', s', c'(2 := take (p' - Suc p) T)))
            (run timestamp_re (Suc p, T, c))))"
    by (simp add: run_tail del: run.simps)
  also have "\<dots> = concat (map (\<lambda>j. run rest_re (Suc p + 16 + j, drop j u, c(2 := take (16 + j) T))) js)"
    unfolding m by (simp add: comp_def del: run.simps)
  also have "\<dots> = concat (map (\<lambda>j. if no_newline (drop j u)
                       then [(p + 17 + length u, [],
                              c(2 := d8 @ ''.'' @ d6 @ ''-'' @ take j u, 3 := drop j u))]
                       else []) js)"
  proof -
    have "map (\<lambda>j. run rest_re (Suc p + 16 + j, drop j u, c(2 := take (16 + j) T))) js
        = map (\<lambda>j. if no_newline (drop j u)
                       then [(p + 17 + length u, [],
                              c(2 := d8 @ ''.'' @ d6 @ ''-'' @ take j u, 3 := drop j u))]
                       else []) js"
    proof (rule map_cong [OF refl])
      fix j assume "j \<in> set js"
      from le [OF this] show "run rest_re (Suc p + 16 + j, drop j u, c(2 := take (16 + j) T))
          = (if no_newline (drop j u)
             then [(p + 17 + length u, [],
                    c(2 := d8 @ ''.'' @ d6 @ ''-'' @ take j u, 3 := drop j u))]
             else [])"
        unfolding run_rest tk by simp
    qed
    then show ?thesis by (simp only:)
  qed
  finally show ?thesis
    unfolding T_def js_def by simp
qed

lemma concat_map_nonempty: "x \<in> set xs \<Longrightarrow> g x \<noteq> [] \<Longrightarrow> concat (map g xs) \<noteq> []"
  by auto

text \<open>The tail succeeds exactly on a hyphen, a timestamp and text without newline; its
  first result has the longest timestamp.\<close>

lemma unique_tail_ok:
  assumes "is_timestamp b" and "no_newline r"
  shows "run (tail_re timestamp_re) (p, ''-'' @ b @ r, c) \<noteq> []"
proof -
  from assms(1) obtain d8 d6 n where b: "b = d8 @ ''.'' @ d6 @ ''-'' @ n"
    and f: "length d8 = 8" "digits d8" "length d6 = 6" "digits d6"
    and n: "n \<noteq> []" "digits n"
    unfolding is_timestamp_def by blast
  let ?u = "n @ r"
  let ?D = "length (takeWhile (accepts Digit) ?u)"
  have "length n \<le> ?D" using n(2) by (rule digits_takeWhile)
  moreover have "1 \<le> length n" using n(1) by (cases n) auto
  ultimately have j: "length n \<in> set (rev [1 ..< Suc ?D])" by auto
  have "no_newline (drop (length n) ?u)" using assms(2) by simp
  then have "(if no_newline (drop (length n) ?u)
         then [(p + 17 + length ?u, [],
                c(2 := d8 @ ''.'' @ d6 @ ''-'' @ take (length n) ?u, 3 := drop (length n) ?u))]
         else []) \<noteq> []"
    by (simp only: if_True) simp
  with j have "run (tail_re timestamp_re) (p, ''-'' @ d8 @ ''.'' @ d6 @ ''-'' @ ?u, c) \<noteq> []"
    unfolding unique_tail_list [OF f] by (rule concat_map_nonempty)
  then show ?thesis by (simp add: b)
qed

lemma unique_tail_hd:
  assumes "run (tail_re timestamp_re) (p, t, c) \<noteq> []"
  shows "\<exists>m2 m3. t = ''-'' @ m2 @ m3 \<and> is_timestamp m2 \<and> no_newline m3 \<and>
           hd (run (tail_re timestamp_re) (p, t, c)) = (p + length t, [], c(2 := m2, 3 := m3)) \<and>
           (\<forall>b r. t = ''-'' @ b @ r \<and> is_timestamp b \<longrightarrow> length b \<le> length m2)"
proof -
  from assms obtain t1 where t: "t = CHR ''-'' # t1"
    unfolding run_tail by (auto split: list.splits if_splits)
  have ts: "run timestamp_re (Suc p, t1, c) \<noteq> []"
  proof
    assume "run timestamp_re (Suc p, t1, c) = []"
    then have "run (tail_re timestamp_re) (p, t, c) = []"
      unfolding run_tail t by simp
    with assms show False by simp
  qed
  from run_timestamp_form [OF ts] obtain d8 d6 u where t1: "t1 = d8 @ ''.'' @ d6 @ ''-'' @ u"
    and f: "length d8 = 8" "digits d8" "length d6 = 6" "digits d6" by blast
  define D where "D = length (takeWhile (accepts Digit) u)"
  define E :: "nat \<Rightarrow> mstate list" where "E = (\<lambda>j. if no_newline (drop j u)
                       then [(p + 17 + length u, [],
                              c(2 := d8 @ ''.'' @ d6 @ ''-'' @ take j u, 3 := drop j u))]
                       else [])"
  have l: "run (tail_re timestamp_re) (p, t, c) = concat (map E (rev [1 ..< Suc D]))"
    unfolding t t1 D_def E_def using unique_tail_list [OF f, of p u c] by simp
  from assms obtain j where j: "j \<in> set (rev [1 ..< Suc D])" "E j \<noteq> []"
    unfolding l by auto
  then have D1: "1 \<le> D" and jD: "j \<le> D" and nj: "no_newline (drop j u)"
    by (auto simp: E_def split: if_splits)
  have nD: "no_newline (drop D u)" using jD nj by (rule no_newline_drop_mono)
  have "[1 ..< Suc D] = [1 ..< D] @ [D]" using D1 by (rule upt_Suc_append)
  then have js: "rev [1 ..< Suc D] = D # rev [1 ..< D]" by (simp only: rev_append rev.simps append.simps)
  have hd: "hd (run (tail_re timestamp_re) (p, t, c))
      = (p + 17 + length u, [], c(2 := d8 @ ''.'' @ d6 @ ''-'' @ take D u, 3 := drop D u))"
    unfolding l js using nD by (simp add: E_def)
  have Dle: "D \<le> length u" unfolding D_def by (rule length_takeWhile_le)
  have tw: "take D u = takeWhile (accepts Digit) u"
    unfolding D_def by (rule takeWhile_eq_take [symmetric])
  have dg: "digits (take D u)"
    unfolding tw digits_def using set_takeWhileD [of _ "accepts Digit" u] by auto
  have ne: "take D u \<noteq> []" using D1 Dle by (cases u) auto
  let ?m2 = "d8 @ ''.'' @ d6 @ ''-'' @ take D u"
  have ist: "is_timestamp ?m2"
    unfolding is_timestamp_def using f dg ne by blast
  have eq: "t = ''-'' @ ?m2 @ drop D u"
    unfolding t t1 by simp
  have len: "p + 17 + length u = p + length t"
    unfolding t t1 using f(1,3) by simp
  have mx: "length b \<le> length ?m2" if b: "t = ''-'' @ b @ r" "is_timestamp b" for b r
  proof -
    from b(2) obtain e8 e6 n where bb: "b = e8 @ ''.'' @ e6 @ ''-'' @ n"
      and g: "length e8 = 8" "length e6 = 6" "digits n"
      unfolding is_timestamp_def by blast
    from b(1) have "e8 @ (''.'' @ e6 @ ''-'' @ n @ r) = d8 @ (''.'' @ d6 @ ''-'' @ u)"
      unfolding t t1 bb by simp
    then have "''.'' @ e6 @ ''-'' @ n @ r = ''.'' @ d6 @ ''-'' @ u"
      using g(1) f(1) by (simp add: append_eq_append_conv)
    then have "e6 @ (''-'' @ n @ r) = d6 @ (''-'' @ u)" by simp
    then have "''-'' @ n @ r = ''-'' @ u"
      using g(2) f(3) by (simp add: append_eq_append_conv)
    then have u: "u = n @ r" by simp
    have "length n \<le> D"
      unfolding D_def u using g(3) by (rule digits_takeWhile)
    then show ?thesis
      unfolding bb using g(1,2) f(1,3) Dle by simp
  qed
  from eq ist nD hd len mx show ?thesis
    by (intro exI [of _ ?m2] exI [of _ "drop D u"]) (simp del: append.simps)
qed

lemma no_newline_prefix_length:
  assumes "no_newline a"
  shows "length a \<le> length (takeWhile (accepts AnyNotNL) (a @ r))"
  using assms by (subst takeWhile_append2) (auto simp: no_newline_def)

lemma take_no_newline:
  assumes "k \<le> length (takeWhile (accepts AnyNotNL) f)"
  shows "no_newline (take k f) \<and> length (take k f) = k"
proof -
  from assms obtain d r where "f = d @ r" "length d = k" "\<forall>x\<in>set d. accepts AnyNotNL x"
    unfolding takeWhile_length_ge by blast
  then show ?thesis by (auto simp: no_newline_def)
qed

text \<open>The matcher against the descriptions of the two patterns.\<close>

lemma unique_found:
  assumes "unique_match f a b c"
  shows "\<exists>m1 m2 m3. unique_match f m1 m2 m3 \<and>
           FindStringSubmatch uniqueSnapshotRegex f = Some [f, m1, m2, m3] \<and>
           length a \<le> length m1 \<and>
           (\<forall>b' c'. unique_match f m1 b' c' \<longrightarrow> length b' \<le> length m2)"
proof -
  let ?N = "length (takeWhile (accepts AnyNotNL) f)"
  let ?c1 = "\<lambda>n. (\<lambda>_. [])(1 := take n f)"
  from assms have f: "f = a @ ''-'' @ b @ c" and a: "a \<noteq> []" "no_newline a"
    and b: "is_timestamp b" and c: "no_newline c"
    unfolding unique_match_def by auto
  have n1: "1 \<le> length a" using a(1) by (cases a) auto
  have nN: "length a \<le> ?N"
    unfolding f using a(2) by (rule no_newline_prefix_length)
  have dr: "drop (length a) f = ''-'' @ b @ c" unfolding f by simp
  have ok: "run (tail_re timestamp_re) (length a, drop (length a) f, ?c1 (length a)) \<noteq> []"
    unfolding dr using b c by (rule unique_tail_ok)
  from anchored_some [OF n1 nN ok] obtain k st where k: "length a \<le> k" "k \<le> ?N"
    and st: "run (tail_re timestamp_re) (k, drop k f, ?c1 k)
               = st # tl (run (tail_re timestamp_re) (k, drop k f, ?c1 k))"
    and res: "FindStringSubmatch (anchored timestamp_re) f =
                Some [take (fst st) f, snd (snd st) 1, snd (snd st) 2, snd (snd st) 3]"
    by blast
  have ne: "run (tail_re timestamp_re) (k, drop k f, ?c1 k) \<noteq> []"
    using st by (metis list.distinct(1))
  from unique_tail_hd [OF ne] obtain m2 m3 where t: "drop k f = ''-'' @ m2 @ m3"
    and m: "is_timestamp m2" "no_newline m3"
    and hd: "hd (run (tail_re timestamp_re) (k, drop k f, ?c1 k))
               = (k + length (drop k f), [], (?c1 k)(2 := m2, 3 := m3))"
    and mx: "\<forall>b r. drop k f = ''-'' @ b @ r \<and> is_timestamp b \<longrightarrow> length b \<le> length m2"
    by blast
  have sthd: "st = (k + length (drop k f), [], (?c1 k)(2 := m2, 3 := m3))"
    using st hd by (metis list.sel(1))
  have kf: "k \<le> length f" using k(2) length_takeWhile_le [of "accepts AnyNotNL" f] by simp
  from take_no_newline [OF k(2)] have tk: "no_newline (take k f)" "length (take k f) = k"
    by auto
  have k1: "take k f \<noteq> []" using tk(2) n1 k(1) by auto
  have ff: "f = take k f @ ''-'' @ m2 @ m3"
    using t by (metis append_take_drop_id)
  have um: "unique_match f (take k f) m2 m3"
    unfolding unique_match_def using ff k1 tk(1) m by blast
  have r: "FindStringSubmatch uniqueSnapshotRegex f = Some [f, take k f, m2, m3]"
    unfolding uniqueSnapshotRegex_anchored res sthd using kf by simp
  have mx': "length b' \<le> length m2" if "unique_match f (take k f) b' c'" for b' c'
  proof -
    from that have "f = take k f @ ''-'' @ b' @ c'" and ib: "is_timestamp b'"
      unfolding unique_match_def by auto
    then have "drop k f = ''-'' @ b' @ c'"
      by (metis append_eq_conv_conj tk(2))
    with mx ib show ?thesis by blast
  qed
  from um r k(1) tk(2) mx' show ?thesis by auto
qed

lemma unique_not_found:
  assumes "\<forall>a b c. \<not> unique_match f a b c"
  shows "FindStringSubmatch uniqueSnapshotRegex f = None"
  unfolding uniqueSnapshotRegex_anchored
proof (rule anchored_none)
  fix n assume n: "1 \<le> n" "n \<le> length (takeWhile (accepts AnyNotNL) f)"
  show "run (tail_re timestamp_re) (n, drop n f, (\<lambda>_. [])(1 := take n f)) = []"
  proof (rule ccontr)
    assume "run (tail_re timestamp_re) (n, drop n f, (\<lambda>_. [])(1 := take n f)) \<noteq> []"
    from unique_tail_hd [OF this] obtain m2 m3 where t: "drop n f = ''-'' @ m2 @ m3"
      and m: "is_timestamp m2" "no_newline m3" by blast
    from take_no_newline [OF n(2)] have tk: "no_newline (take n f)" "length (take n f) = n"
      by auto
    have "take n f \<noteq> []" using tk(2) n(1) by auto
    moreover have "f = take n f @ ''-'' @ m2 @ m3"
      using t by (metis append_take_drop_id)
    ultimately have "unique_match f (take n f) m2 m3"
      unfolding unique_match_def using tk(1) m by blast
    with assms show False by blast
  qed
qed

lemma nonunique_tail_ok:
  assumes "no_newline r"
  shows "run (tail_re snapshot_re) (p, ''-SNAPSHOT'' @ r, c) \<noteq> []"
  unfolding run_tail_snapshot using assms by simp

lemma nonunique_tail_hd:
  assumes "run (tail_re snapshot_re) (p, t, c) \<noteq> []"
  shows "\<exists>m3. t = ''-SNAPSHOT'' @ m3 \<and> no_newline m3 \<and>
           run (tail_re snapshot_re) (p, t, c) = [(p + length t, [], c(2 := ''SNAPSHOT'', 3 := m3))]"
proof -
  from assms have p: "prefix ''-SNAPSHOT'' t" and n: "no_newline (drop 9 t)"
    unfolding run_tail_snapshot by (auto split: if_splits)
  from p obtain m3 where t: "t = ''-SNAPSHOT'' @ m3" by (auto simp: prefix_def)
  then have "drop 9 t = m3" by simp
  with t n p show ?thesis
    unfolding run_tail_snapshot by auto
qed

lemma nonunique_found:
  assumes "nonunique_match f a c"
  shows "\<exists>m1 m3. nonunique_match f m1 m3 \<and>
           FindStringSubmatch nonUniqueSnapshotRegex f = Some [f, m1, ''SNAPSHOT'', m3] \<and>
           length a \<le> length m1"
proof -
  let ?N = "length (takeWhile (accepts AnyNotNL) f)"
  let ?c1 = "\<lambda>n. (\<lambda>_. [])(1 := take n f)"
  from assms have f: "f = a @ ''-SNAPSHOT'' @ c" and a: "a \<noteq> []" "no_newline a"
    and c: "no_newline c"
    unfolding nonunique_match_def by auto
  have n1: "1 \<le> length a" using a(1) by (cases a) auto
  have nN: "length a \<le> ?N"
    unfolding f using a(2) by (rule no_newline_prefix_length)
  have dr: "drop (length a) f = ''-SNAPSHOT'' @ c" unfolding f by simp
  have ok: "run (tail_re snapshot_re) (length a, drop (length a) f, ?c1 (length a)) \<noteq> []"
    unfolding dr using c by (rule nonunique_tail_ok)
  from anchored_some [OF n1 nN ok] obtain k st where k: "length a \<le> k" "k \<le> ?N"
    and st: "run (tail_re snapshot_re) (k, drop k f, ?c1 k)
               = st # tl (run (tail_re snapshot_re) (k, drop k f, ?c1 k))"
    and res: "FindStringSubmatch (anchored snapshot_re) f =
                Some [take (fst st) f, snd (snd st) 1, snd (snd st) 2, snd (snd st) 3]"
    by blast
  have ne: "run (tail_re snapshot_re) (k, drop k f, ?c1 k) \<noteq> []"
    using st by (metis list.distinct(1))
  from nonunique_tail_hd [OF ne] obtain m3 where t: "drop k f = ''-SNAPSHOT'' @ m3"
    and m: "no_newline m3"
    and hd: "run (tail_re snapshot_re) (k, drop k f, ?c1 k)
               = [(k + length (drop k f), [], (?c1 k)(2 := ''SNAPSHOT'', 3 := m3))]"
    by blast
  have sthd: "st = (k + length (drop k f), [], (?c1 k)(2 := ''SNAPSHOT'', 3 := m3))"
    using st hd by (metis list.sel(1))
  have kf: "k \<le> length f" using k(2) length_takeWhile_le [of "accepts AnyNotNL" f] by simp
  from take_no_newline [OF k(2)] have tk: "no_newline (take k f)" "length (take k f) = k"
    by auto
  have k1: "take k f \<noteq> []" using tk(2) n1 k(1) by auto
  have ff: "f = take k f @ ''-SNAPSHOT'' @ m3"
    using t by (metis append_take_drop_id)
  have um: "nonunique_match f (take k f) m3"
    unfolding nonunique_match_def using ff k1 tk(1) m by blast
  have r: "FindStringSubmatch nonUniqueSnapshotRegex f = Some [f, take k f, ''SNAPSHOT'', m3]"
    unfolding nonUniqueSnapshotRegex_anchored res sthd using kf by simp
  from um r k(1) tk(2) show ?thesis by auto
qed

lemma nonunique_not_found:
  assumes "\<forall>a c. \<not> nonunique_match f a c"
  shows "FindStringSubmatch nonUniqueSnapshotRegex f = None"
  unfolding nonUniqueSnapshotRegex_anchored
proof (rule anchored_none)
  fix n assume n: "1 \<le> n" "n \<le> length (takeWhile (accepts AnyNotNL) f)"
  show "run (tail_re snapshot_re) (n, drop n f, (\<lambda>_. [])(1 := take n f)) = []"
  proof (rule ccontr)
    assume "run (tail_re snapshot_re) (n, drop n f, (\<lambda>_. [])(1 := take n f)) \<noteq> []"
    from nonunique_tail_hd [OF this] obtain m3 where t: "drop n f = ''-SNAPSHOT'' @ m3"
      and m: "no_newline m3" by blast
    from take_no_newline [OF n(2)] have tk: "no_newline (take n f)" "length (take n f) = n"
      by auto
    have "take n f \<noteq> []" using tk(2) n(1) by auto
    moreover have "f = take n f @ ''-SNAPSHOT'' @ m3"
      using t by (metis append_take_drop_id)
    ultimately have "nonunique_match f (take n f) m3"
      unfolding nonunique_match_def using tk(1) m by blast
    with assms show False by blast
  qed
qed

lemma index_of_takeWhile:
  "(case index_of c s of Some i \<Rightarrow> take i s | None \<Rightarrow> s) = takeWhile (\<lambda>x. x \<noteq> c) s"
  by (induction s) (auto split: option.splits)

lemma extractVersion_unique:
  "FindStringSubmatch uniqueSnapshotRegex f = Some [m0, m1, m2, m3] \<Longrightarrow>
   extractVersion f = m1 @ ''-'' @ m2"
  by (simp add: extractVersion_def)

lemma extractVersion_nonunique:
  "FindStringSubmatch uniqueSnapshotRegex f = None \<Longrightarrow>
   FindStringSubmatch nonUniqueSnapshotRegex f = Some [m0, m1, m2, m3] \<Longrightarrow>
   extractVersion f = m1 @ ''-'' @ m2"
  by (simp add: extractVersion_def)

lemma extractVersion_fallback:
  "FindStringSubmatch uniqueSnapshotRegex f = None \<Longrightarrow>
   FindStringSubmatch nonUniqueSnapshotRegex f = None \<Longrightarrow>
   extractVersion f = takeWhile (\<lambda>x. x \<noteq> CHR ''.'') f"
  using index_of_takeWhile [where c = "CHR ''.''" and s = f] by (simp add: extractVersion_def)

text \<open>
  Claim C2. If the name matches the unique-snapshot pattern, \<open>FindStringSubmatch\<close>
  returns the name and three groups that split it as the pattern says, the first group
  as long as any split allows and then the second as long as possible, and
  \<open>extractVersion\<close> returns \<open>m1-m2\<close>. If it does not match that pattern but matches
  the non-unique one, the groups split the name as that pattern says, the first as long
  as possible, and the result is \<open>m1-SNAPSHOT\<close>. If it matches neither, the result is
  the name up to its first dot, the whole name when it has none.
\<close>

theorem extractVersion_cases:
  "(unique_match f a b c \<longrightarrow>
      (\<exists>m1 m2 m3. unique_match f m1 m2 m3 \<and>
         FindStringSubmatch uniqueSnapshotRegex f = Some [f, m1, m2, m3] \<and>
         extractVersion f = m1 @ ''-'' @ m2 \<and>
         length a \<le> length m1 \<and>
         (\<forall>b' c'. unique_match f m1 b' c' \<longrightarrow> length b' \<le> length m2))) \<and>
   ((\<forall>a b c. \<not> unique_match f a b c) \<and> nonunique_match f a c \<longrightarrow>
      (\<exists>m1 m3. nonunique_match f m1 m3 \<and>
         FindStringSubmatch nonUniqueSnapshotRegex f = Some [f, m1, ''SNAPSHOT'', m3] \<and>
         extractVersion f = m1 @ ''-SNAPSHOT'' \<and>
         length a \<le> length m1)) \<and>
   ((\<forall>a b c. \<not> unique_match f a b c) \<and> (\<forall>a c. \<not> nonunique_match f a c) \<longrightarrow>
      extractVersion f = takeWhile (\<lambda>x. x \<noteq> CHR ''.'') f)"
proof (intro conjI impI)
  assume "unique_match f a b c"
  from unique_found [OF this] obtain m1 m2 m3 where
    m: "unique_match f m1 m2 m3"
       "FindStringSubmatch uniqueSnapshotRegex f = Some [f, m1, m2, m3]"
       "length a \<le> length m1"
       "\<forall>b' c'. unique_match f m1 b' c' \<longrightarrow> length b' \<le> length m2"
    by blast
  from extractVersion_unique [OF m(2)] m
  show "\<exists>m1 m2 m3. unique_match f m1 m2 m3 \<and>
         FindStringSubmatch uniqueSnapshotRegex f = Some [f, m1, m2, m3] \<and>
         extractVersion f = m1 @ ''-'' @ m2 \<and>
         length a \<le> length m1 \<and>
         (\<forall>b' c'. unique_match f m1 b' c' \<longrightarrow> length b' \<le> length m2)"
    by blast
next
  assume h: "(\<forall>a b c. \<not> unique_match f a b c) \<and> nonunique_match f a c"
  then have u: "FindStringSubmatch uniqueSnapshotRegex f = None"
    by (intro unique_not_found) simp
  from h nonunique_found [of f a c] obtain m1 m3 where
    m: "nonunique_match f m1 m3"
       "FindStringSubmatch nonUniqueSnapshotRegex f = Some [f, m1, ''SNAPSHOT'', m3]"
       "length a \<le> length m1"
    by blast
  from extractVersion_nonunique [OF u m(2)] have "extractVersion f = m1 @ ''-SNAPSHOT''"
    by simp
  with m show "\<exists>m1 m3. nonunique_match f m1 m3 \<and>
         FindStringSubmatch nonUniqueSnapshotRegex f = Some [f, m1, ''SNAPSHOT'', m3] \<and>
         extractVersion f = m1 @ ''-SNAPSHOT'' \<and>
         length a \<le> length m1"
    by blast
next
  assume h: "(\<forall>a b c. \<not> unique_match f a b c) \<and> (\<forall>a c. \<not> nonunique_match f a c)"
  then have "FindStringSubmatch uniqueSnapshotRegex f = None"
    and "FindStringSubmatch nonUniqueSnapshotRegex f = None"
    by (simp_all add: unique_not_found nonunique_not_found)
  then show "extractVersion f = takeWhile (\<lambda>x. x \<noteq> CHR ''.'') f"
    by (rule extractVersion_fallback)
qed

lemma ex_timestamp: "is_timestamp ''20231020.120000-12''"
  unfolding is_timestamp_def
  by (intro exI [of _ "''20231020''"] exI [of _ "''120000''"] exI [of _ "''12''"])
     (simp add: digits_def)

lemma ex_unique: "unique_match ''app-1.0-20231020.120000-12-sources.jar'' ''app-1.0''
                    ''20231020.120000-12'' ''-sources.jar''"
  unfolding unique_match_def using ex_timestamp by (simp add: no_newline_def)

lemma ex_nonunique: "nonunique_match ''app-1.0-SNAPSHOT.pom'' ''app-1.0'' ''.pom''"
  unfolding nonunique_match_def by (simp add: no_newline_def)

lemma ex_find:
  "FindStringSubmatch uniqueSnapshotRegex ''app-1.0-SNAPSHOT.pom'' = None"
  "FindStringSubmatch uniqueSnapshotRegex ''foo.tar.gz'' = None"
  "FindStringSubmatch nonUniqueSnapshotRegex ''foo.tar.gz'' = None"
  by code_simp+

lemma ex_no_unique: "\<forall>a b c. \<not> unique_match ''app-1.0-SNAPSHOT.pom'' a b c"
  using unique_found [of "''app-1.0-SNAPSHOT.pom''"] ex_find(1) by fastforce

lemma ex_no_match:
  "\<forall>a b c. \<not> unique_match ''foo.tar.gz'' a b c"
  "\<forall>a c. \<not> nonunique_match ''foo.tar.gz'' a c"
  using unique_found [of "''foo.tar.gz''"] nonunique_found [of "''foo.tar.gz''"] ex_find(2,3)
  by fastforce+

lemma ex_extract:
  "extractVersion ''app-1.0-20231020.120000-12-sources.jar'' = ''app-1.0-20231020.120000-12''"
  by code_simp

theorem extractVersion_cases_witness:
  "unique_match ''app-1.0-20231020.120000-12-sources.jar'' ''app-1.0''
     ''20231020.120000-12'' ''-sources.jar'' \<and>
   extractVersion ''app-1.0-20231020.120000-12-sources.jar'' = ''app-1.0-20231020.120000-12'' \<and>
   (\<exists>m1 m2 m3. unique_match ''app-1.0-20231020.120000-12-sources.jar'' m1 m2 m3 \<and>
      extractVersion ''app-1.0-20231020.120000-12-sources.jar'' = m1 @ ''-'' @ m2 \<and>
      length ''app-1.0'' \<le> length m1) \<and>
   (\<forall>a b c. \<not> unique_match ''app-1.0-SNAPSHOT.pom'' a b c) \<and>
   nonunique_match ''app-1.0-SNAPSHOT.pom'' ''app-1.0'' ''.pom'' \<and>
   (\<exists>m1 m3. nonunique_match ''app-1.0-SNAPSHOT.pom'' m1 m3 \<and>
      extractVersion ''app-1.0-SNAPSHOT.pom'' = m1 @ ''-SNAPSHOT'' \<and>
      length ''app-1.0'' \<le> length m1) \<and>
   (\<forall>a b c. \<not> unique_match ''foo.tar.gz'' a b c) \<and>
   (\<forall>a c. \<not> nonunique_match ''foo.tar.gz'' a c) \<and>
   extractVersion ''foo.tar.gz'' = ''foo''"
proof -
  from extractVersion_cases [of "''app-1.0-20231020.120000-12-sources.jar''" "''app-1.0''"
      "''20231020.120000-12''" "''-sources.jar''"] ex_unique
  have u: "\<exists>m1 m2 m3. unique_match ''app-1.0-20231020.120000-12-sources.jar'' m1 m2 m3 \<and>
      extractVersion ''app-1.0-20231020.120000-12-sources.jar'' = m1 @ ''-'' @ m2 \<and>
      length ''app-1.0'' \<le> length m1"
    by blast
  from extractVersion_cases [of "''app-1.0-SNAPSHOT.pom''" "''app-1.0''" "''x''" "''.pom''"]
    ex_no_unique ex_nonunique
  have n: "\<exists>m1 m3. nonunique_match ''app-1.0-SNAPSHOT.pom'' m1 m3 \<and>
      extractVersion ''app-1.0-SNAPSHOT.pom'' = m1 @ ''-SNAPSHOT'' \<and>
      length ''app-1.0'' \<le> length m1"
    by blast
  from extractVersion_cases [of "''foo.tar.gz''" "''x''" "''x''" "''x''"] ex_no_match
  have "extractVersion ''foo.tar.gz'' = takeWhile (\<lambda>x. x \<noteq> CHR ''.'') ''foo.tar.gz''"
    by blast
  then have f: "extractVersion ''foo.tar.gz'' = ''foo''" by simp
  from ex_unique ex_extract u ex_no_unique ex_nonunique n ex_no_match f show ?thesis
    by blast
qed

section \<open>The groups and their order\<close>

text \<open>The map \<open>groups\<close> holds, under each key, the grouped files with that key in
  listing order, and no key without file.\<close>

lemma files_of_snoc:
  "files_of (es @ [e]) k =
     (if grouped e \<and> extractVersion (Name e) = k
      then files_of es k @ [\<lparr>fi_Name = Name e, fi_ModTime = ModTime e\<rparr>]
      else files_of es k)"
  by (simp add: files_of_def)

lemma group_files_lookup:
  "group_files es k = (if files_of es k = [] then None else Some (files_of es k))"
proof (induction es arbitrary: k rule: rev_induct)
  case Nil
  show ?case by (simp add: group_files_def files_of_def)
next
  case (snoc e es)
  have step: "group_files (es @ [e]) = add_file (group_files es) e"
    by (simp add: group_files_def)
  show ?case
    unfolding step files_of_snoc
    by (simp add: add_file_def snoc.IH elems_def grouped_def Let_def)
qed

lemma group_files_elems: "elems (group_files es k) = files_of es k"
  by (simp add: group_files_lookup elems_def)

lemma group_files_dom: "dom (group_files es) = {k. files_of es k \<noteq> []}"
  by (auto simp: group_files_lookup dom_def)

lemma files_of_names:
  "fi_Name ` set (files_of es k) = Name ` {e \<in> set es. grouped e \<and> extractVersion (Name e) = k}"
  by (auto simp: files_of_def image_iff)

lemma files_of_nonempty:
  "files_of es k \<noteq> [] \<longleftrightarrow> (\<exists>e\<in>set es. grouped e \<and> extractVersion (Name e) = k)"
  by (auto simp: files_of_def filter_empty_conv)

lemma collect_versions_set:
  "set (collect_versions (group_files es) order)
     = version_of es ` (set order \<inter> dom (group_files es))"
  by (auto simp: collect_versions_def map_filter_def group_files_lookup version_of_def
           dom_def image_iff split: option.splits if_splits)


text \<open>The sort returns a permutation, ordered by max mod-time, newest first.\<close>

lemma insert_left_mset: "mset (insert_left lt x ys) = add_mset x (mset ys)"
  by (induction ys) auto

lemma foldl_insert_left_mset:
  "mset (foldl (\<lambda>acc x. insert_left lt x acc) acc xs) = mset acc + mset xs"
  by (induction xs arbitrary: acc) (auto simp: insert_left_mset)

lemma sort_Slice_mset: "mset (sort_Slice lt xs) = mset xs"
  by (simp add: sort_Slice_def foldl_insert_left_mset)

lemma sort_Slice_set: "set (sort_Slice lt xs) = set xs"
  using sort_Slice_mset [of lt xs] by (metis set_mset_mset)

lemma insert_left_set: "set (insert_left lt x ys) = insert x (set ys)"
  using insert_left_mset [of lt x ys] by (metis set_mset_mset set_mset_add_mset_insert)

lemma insert_left_newer_sorted:
  "sorted_wrt (\<lambda>a b. MaxTime a \<le> MaxTime b) ys \<Longrightarrow>
   sorted_wrt (\<lambda>a b. MaxTime a \<le> MaxTime b) (insert_left newer x ys)"
  by (induction ys) (auto simp: newer_def insert_left_set)

lemma foldl_insert_left_newer_sorted:
  "sorted_wrt (\<lambda>a b. MaxTime a \<le> MaxTime b) acc \<Longrightarrow>
   sorted_wrt (\<lambda>a b. MaxTime a \<le> MaxTime b) (foldl (\<lambda>acc x. insert_left newer x acc) acc xs)"
  by (induction xs arbitrary: acc) (auto simp: insert_left_newer_sorted)

lemma sort_Slice_newer_sorted:
  "sorted_wrt (\<lambda>a b. MaxTime b \<le> MaxTime a) (sort_Slice newer xs)"
proof -
  have "sorted_wrt (\<lambda>a b. MaxTime a \<le> MaxTime b) (foldl (\<lambda>acc x. insert_left newer x acc) [] xs)"
    by (rule foldl_insert_left_newer_sorted) simp
  then show ?thesis
    by (simp add: sort_Slice_def sorted_wrt_rev)
qed

section \<open>Durations and the deletion loop\<close>


text \<open>The paths deleted are those of the files of the versions whose verdict is to
  delete.\<close>

lemma delete_files_member:
  "p \<in> set (delete_files dir v) \<longleftrightarrow> (\<exists>f\<in>set (Files v). p = filepath_Join dir (fi_Name f))"
  by (auto simp: delete_files_def)

lemma delete_loop_member:
  "p \<in> set (delete_loop cfg now dir vs) \<longleftrightarrow>
     (\<exists>i<length vs. fst (verdict cfg now i (vs ! i)) \<and> p \<in> set (delete_files dir (vs ! i)))"
proof
  assume "p \<in> set (delete_loop cfg now dir vs)"
  then obtain i v where iv: "(i, v) \<in> set (enumerate 0 vs)"
    and p: "p \<in> set (if fst (verdict cfg now i v) then delete_files dir v else [])"
    unfolding delete_loop_def by auto
  from iv have "i < length vs" "vs ! i = v"
    by (auto simp: in_set_enumerate_eq)
  with p show "\<exists>i<length vs. fst (verdict cfg now i (vs ! i)) \<and> p \<in> set (delete_files dir (vs ! i))"
    by (auto split: if_splits)
next
  assume "\<exists>i<length vs. fst (verdict cfg now i (vs ! i)) \<and> p \<in> set (delete_files dir (vs ! i))"
  then obtain i where i: "i < length vs" "fst (verdict cfg now i (vs ! i))"
    "p \<in> set (delete_files dir (vs ! i))" by blast
  then have "(i, vs ! i) \<in> set (enumerate 0 vs)"
    by (simp add: in_set_enumerate_eq)
  with i show "p \<in> set (delete_loop cfg now dir vs)"
    unfolding delete_loop_def by force
qed

lemma verdict_fst:
  "fst (verdict cfg now i v) \<longleftrightarrow>
     (SnapshotKeepDays cfg > 0 \<and> Sub now (MaxTime v) > keepDays cfg) \<or>
     (SnapshotKeepLatestOnly cfg \<and> i > 0)"
  by (simp add: verdict_def)

lemma verdict_expired:
  "snd (verdict cfg now i v) = ''expired'' \<longleftrightarrow>
     SnapshotKeepDays cfg > 0 \<and> Sub now (MaxTime v) > keepDays cfg"
  by (simp add: verdict_def)

text \<open>
  The duration of line 175 is even and never above the product it stands for, so a
  group that is not expired is at most \<open>keep_days\<close> days old, overflow or not; up to
  106751 days the product is exact.
\<close>

lemma wrap64_id: "- (2 ^ 63) \<le> x \<Longrightarrow> x < 2 ^ 63 \<Longrightarrow> wrap64 x = x"
  by (simp add: wrap64_def)

lemma wrap64_range: "minDuration \<le> wrap64 x \<and> wrap64 x \<le> maxDuration"
proof -
  have "0 \<le> (x + 2 ^ 63) mod 2 ^ 64" "(x + 2 ^ 63) mod 2 ^ 64 < (2 ^ 64 :: int)"
    by simp_all
  then show ?thesis
    by (simp add: wrap64_def minDuration_def maxDuration_def)
qed

lemma wrap64_le: "0 \<le> x \<Longrightarrow> wrap64 x \<le> x"
proof -
  assume x: "0 \<le> x"
  have "(x + 2 ^ 63) mod 2 ^ 64 \<le> x + 2 ^ 63"
    using x by (intro zmod_le_nonneg_dividend) simp
  then show ?thesis by (simp add: wrap64_def)
qed

lemma wrap64_mult: "wrap64 (wrap64 a * b) = wrap64 (a * b)"
proof -
  have "(wrap64 a * b + 2 ^ 63) mod 2 ^ 64 = (a * b + 2 ^ 63) mod (2 ^ 64 :: int)"
  proof -
    have "wrap64 a mod 2 ^ 64 = a mod (2 ^ 64 :: int)"
      unfolding wrap64_def
      by (metis (no_types, opaque_lifting) add_diff_cancel_right' mod_diff_left_eq)
    then have "(wrap64 a * b) mod 2 ^ 64 = (a * b) mod (2 ^ 64 :: int)"
      by (metis mod_mult_left_eq)
    then show ?thesis
      by (metis mod_add_left_eq)
  qed
  then show ?thesis by (simp add: wrap64_def)
qed

lemma wrap64_even: "even x \<Longrightarrow> even (wrap64 x)"
proof -
  assume "even x"
  then have "even (x + 2 ^ 63)" by simp
  moreover have "(2::int) dvd 2 ^ 64" by simp
  ultimately have "even ((x + 2 ^ 63) mod 2 ^ 64)"
    using dvd_mod_iff [of 2 "2 ^ 64" "x + 2 ^ 63"] by blast
  then show ?thesis by (simp add: wrap64_def)
qed

lemma keepDays_eq: "keepDays cfg = wrap64 (SnapshotKeepDays cfg * 24 * Hour)"
  by (simp add: keepDays_def wrap64_mult)

lemma keepDays_even: "even (keepDays cfg)"
  unfolding keepDays_eq by (rule wrap64_even) (simp add: Hour_def)

lemma keepDays_le: "0 < SnapshotKeepDays cfg \<Longrightarrow> keepDays cfg \<le> SnapshotKeepDays cfg * 24 * Hour"
  unfolding keepDays_eq by (rule wrap64_le) (simp add: Hour_def)

lemma keepDays_below_max: "keepDays cfg < maxDuration"
proof -
  have "keepDays cfg \<le> maxDuration"
    unfolding keepDays_eq using wrap64_range by blast
  moreover have "keepDays cfg \<noteq> maxDuration"
    using keepDays_even [of cfg] by (auto simp: maxDuration_def)
  ultimately show ?thesis by simp
qed

lemma not_expired_bound:
  assumes "0 < SnapshotKeepDays cfg" and "\<not> Sub now m > keepDays cfg"
  shows "now - m \<le> SnapshotKeepDays cfg * 24 * Hour"
proof -
  have nonneg: "0 \<le> SnapshotKeepDays cfg * 24 * Hour"
    using assms(1) by (simp add: Hour_def)
  consider "now - m > maxDuration" | "now - m < minDuration"
    | "\<not> now - m > maxDuration" "\<not> now - m < minDuration" by blast
  then show ?thesis
  proof cases
    case 1
    then have "Sub now m = maxDuration" by (simp add: Sub_def)
    with assms(2) keepDays_below_max [of cfg] show ?thesis by simp
  next
    case 2
    then have "now - m < 0" by (simp add: minDuration_def)
    with nonneg show ?thesis by linarith
  next
    case 3
    then have "Sub now m = now - m" by (simp add: Sub_def)
    with assms(2) keepDays_le [OF assms(1)] show ?thesis by simp
  qed
qed

lemma keepDays_exact:
  assumes "0 < SnapshotKeepDays cfg" and "SnapshotKeepDays cfg \<le> 106751"
  shows "keepDays cfg = SnapshotKeepDays cfg * 24 * Hour"
  unfolding keepDays_eq using assms by (intro wrap64_id) (simp_all add: Hour_def)

lemma expired_iff_in_range:
  assumes "0 < SnapshotKeepDays cfg" and "SnapshotKeepDays cfg \<le> 106751"
  shows "snd (verdict cfg now i v) = ''expired'' \<longleftrightarrow>
         now - MaxTime v > SnapshotKeepDays cfg * 24 * Hour"
proof -
  have k: "keepDays cfg = SnapshotKeepDays cfg * 24 * Hour"
    using assms by (rule keepDays_exact)
  have lo: "minDuration \<le> keepDays cfg" and hi: "keepDays cfg < maxDuration"
    using wrap64_range [of "SnapshotKeepDays cfg * 24 * Hour"] keepDays_below_max [of cfg]
    by (simp_all add: keepDays_eq)
  have "Sub now (MaxTime v) > keepDays cfg \<longleftrightarrow> now - MaxTime v > keepDays cfg"
    using lo hi by (auto simp: Sub_def)
  then show ?thesis
    using assms(1) k by (simp add: verdict_expired)
qed

section \<open>What \<open>cleanupDir\<close> deletes\<close>

lemma sorted_versions_set:
  "set (sorted_versions es order) = version_of es ` (set order \<inter> dom (group_files es))"
  by (simp add: sorted_versions_def sort_Slice_set collect_versions_set)





lemma version_at_index:
  assumes "range_order (group_files es) order" and "k \<in> dom (group_files es)"
  shows "\<exists>i<length (sorted_versions es order). sorted_versions es order ! i = version_of es k"
proof -
  have "version_of es k \<in> set (sorted_versions es order)"
    using assms by (simp add: sorted_versions_set range_order_def)
  then show ?thesis by (simp add: in_set_conv_nth)
qed


lemma version_of_MaxTime: "MaxTime (version_of es k) = maxTime_of (elems (group_files es k))"
  by (simp add: version_of_def group_files_elems)

lemma version_of_Files: "Files (version_of es k) = files_of es k"
  by (simp add: version_of_def)

lemma grouped_key_in_dom:
  "e \<in> set es \<Longrightarrow> grouped e \<Longrightarrow> extractVersion (Name e) \<in> dom (group_files es)"
  by (auto simp: group_files_dom files_of_nonempty)

lemma entry_path_in_version:
  assumes "e \<in> set es" and "grouped e"
  shows "filepath_Join dir (Name e) \<in> set (delete_files dir (version_of es (extractVersion (Name e))))"
proof -
  have "Name e \<in> fi_Name ` set (files_of es (extractVersion (Name e)))"
    unfolding files_of_names using assms by blast
  then show ?thesis
    by (auto simp: delete_files_member version_of_Files)
qed





text \<open>The age rule: a grouped file that is not deleted belongs to a group within
  \<open>keep_days\<close> days.\<close>

lemma survivors_within_keep_days:
  assumes K: "0 < SnapshotKeepDays cfg"
    and ro: "range_order (group_files es) order"
    and e: "e \<in> set es" "\<not> IsDir e" "\<not> prefix ''maven-metadata'' (Name e)"
    and kept: "filepath_Join dir (Name e) \<notin> set (delete_loop cfg now dir (sorted_versions es order))"
  shows "now - maxTime_of (elems (group_files es (extractVersion (Name e))))
           \<le> SnapshotKeepDays cfg * 24 * Hour"
proof -
  let ?vs = "sorted_versions es order"
  let ?k = "extractVersion (Name e)"
  have g: "grouped e" using e by (simp add: grouped_def)
  have kd: "?k \<in> dom (group_files es)" using e(1) g by (rule grouped_key_in_dom)
  from version_at_index [OF ro kd] obtain i where
    i: "i < length ?vs" "?vs ! i = version_of es ?k" by blast
  have "filepath_Join dir (Name e) \<in> set (delete_files dir (?vs ! i))"
    using entry_path_in_version [OF e(1) g, of dir] i(2) by simp
  with kept i(1) have "\<not> fst (verdict cfg now i (?vs ! i))"
    by (auto simp: delete_loop_member)
  then have "\<not> Sub now (MaxTime (?vs ! i)) > keepDays cfg"
    using K by (simp add: verdict_fst)
  from not_expired_bound [OF K this] show ?thesis
    by (simp add: i(2) version_of_MaxTime)
qed

section \<open>The retention rules\<close>

lemma ex_versions:
  "extractVersion ''app-1.0-20231020.120000-1.jar'' = ''app-1.0-20231020.120000-1''"
  "extractVersion ''app-1.0-20231020.120000-1.pom'' = ''app-1.0-20231020.120000-1''"
  "extractVersion ''app-1.0-20251220.120000-4.jar'' = ''app-1.0-20251220.120000-4''"
  "extractVersion ''app-1.0-SNAPSHOT.pom'' = ''app-1.0-SNAPSHOT''"
  "extractVersion ''app-1.0-SNAPSHOT.jar'' = ''app-1.0-SNAPSHOT''"
  "extractVersion ''a.jar'' = ''a''"
  "extractVersion ''b.jar'' = ''b''"
  by code_simp+



lemma maxTime_of_foldl:
  "foldl (\<lambda>maxTime f. if fi_ModTime f > maxTime then fi_ModTime f else maxTime) m files
     = Max (insert m (fi_ModTime ` set files))"
proof (induction files arbitrary: m)
  case Nil
  show ?case by simp
next
  case (Cons f files)
  have "Max (insert (max m (fi_ModTime f)) (fi_ModTime ` set files))
          = Max (insert m (insert (fi_ModTime f) (fi_ModTime ` set files)))"
    by (cases "files = []") (auto simp: max.assoc max.commute max.left_commute)
  moreover have "(if m < fi_ModTime f then fi_ModTime f else m) = max m (fi_ModTime f)"
    by (simp add: max_def)
  ultimately show ?case
    by (simp add: Cons.IH del: Max_insert)
qed

lemma maxTime_of_Max:
  assumes "files \<noteq> []" and "\<forall>f\<in>set files. 0 < fi_ModTime f"
  shows "maxTime_of files = Max (fi_ModTime ` set files)"
proof -
  have fin: "finite (fi_ModTime ` set files)" and ne: "fi_ModTime ` set files \<noteq> {}"
    using assms(1) by simp_all
  obtain f where "f \<in> set files" using assms(1) by (cases files) auto
  then have "0 < fi_ModTime f" "fi_ModTime f \<le> Max (fi_ModTime ` set files)"
    using assms(2) fin by simp_all
  then have "0 \<le> Max (fi_ModTime ` set files)" by simp
  then show ?thesis
    unfolding maxTime_of_def maxTime_of_foldl using fin ne by (simp add: max_def)
qed



lemma ex_fresh_groups:
  "group_files [ex_file ''app-1.0-SNAPSHOT.jar'' 13 63899996400000000000]
     = [''app-1.0-SNAPSHOT'' \<mapsto>
          [\<lparr>fi_Name = ''app-1.0-SNAPSHOT.jar'', fi_ModTime = 63899996400000000000\<rparr>]]"
  by (simp add: group_files_def add_file_def ex_file_def ex_versions elems_def)

text \<open>
  Claim C3 at a concrete directory. For every \<open>keep_days\<close> above zero a group whose
  files are left is no older than \<open>keep_days\<close> days (\<open>survivors_within_keep_days\<close>),
  and up to 106751 days a group is marked expired exactly when it is older
  (\<open>expired_iff_in_range\<close>). From 106752 days on the product of line 175 leaves the
  range of an \<open>int64\<close>: with \<open>keep_days = 106752\<close> it wraps to a negative
  duration, and a group that is one hour old is marked expired and its file deleted;
  with 106751 the same file is kept.
\<close>

theorem cleanupDir_keep_days_overflow:
  "keepDays (ex_keep_days 106752) = - 9223371273709551616 \<and>
   verdict (ex_keep_days 106752) 63900000000000000000 0
       \<lparr>v_Name = ''app-1.0-SNAPSHOT'', MaxTime = 63899996400000000000,
        Files = [\<lparr>fi_Name = ''app-1.0-SNAPSHOT.jar'', fi_ModTime = 63899996400000000000\<rparr>]\<rparr>
     = (True, ''expired'') \<and>
   cleanupDir ex_fresh (ex_keep_days 106752) 63900000000000000000 [''app-1.0-SNAPSHOT'']
       ''com/ex/app/1.0-SNAPSHOT''
     = (None, [''com/ex/app/1.0-SNAPSHOT/app-1.0-SNAPSHOT.jar'']) \<and>
   63900000000000000000 - 63899996400000000000 = Hour \<and>
   Hour \<le> 106752 * 24 * Hour \<and>
   cleanupDir ex_fresh (ex_keep_days 106751) 63900000000000000000 [''app-1.0-SNAPSHOT'']
       ''com/ex/app/1.0-SNAPSHOT''
     = (None, [])"
  by (simp add: keepDays_def wrap64_def Hour_def ex_keep_days_def verdict_def Sub_def
      maxDuration_def minDuration_def cleanupDir_def ex_fresh_def ex_store_def elems_def
      sorted_versions_def ex_fresh_groups collect_versions_def sort_Slice_def maxTime_of_def
      delete_loop_def delete_files_def filepath_Join_def)

text \<open>
  Claim C4, as the code has it. Whatever order the map is iterated in, the sorted
  versions are the collected versions, rearranged so that max mod-times never increase.
  The comparison of lines 197 to 199 reads the max mod-times only.
\<close>

theorem sorted_versions_descending:
  "sorted_wrt (\<lambda>a b. MaxTime b \<le> MaxTime a) (sorted_versions entries order) \<and>
   mset (sorted_versions entries order) = mset (collect_versions (group_files entries) order)"
  by (simp add: sorted_versions_def sort_Slice_newer_sorted sort_Slice_mset)

lemma ex_tie_groups:
  "group_files [ex_file ''a.jar'' 1 5, ex_file ''b.jar'' 1 t]
     = [''a'' \<mapsto> [\<lparr>fi_Name = ''a.jar'', fi_ModTime = 5\<rparr>],
        ''b'' \<mapsto> [\<lparr>fi_Name = ''b.jar'', fi_ModTime = t\<rparr>]]"
  by (simp add: group_files_def add_file_def ex_file_def ex_versions elems_def)

text \<open>
  The claim as stated fails for two groups \<open>a\<close> and \<open>b\<close> of equal max mod-time: both
  orders of iteration are possible, and each comes out of the sort unchanged, so the
  keys do not decide the order.
\<close>

theorem sorted_versions_tie_counterexample:
  "range_order (group_files [ex_file ''a.jar'' 1 5, ex_file ''b.jar'' 1 5]) [''a'', ''b''] \<and>
   range_order (group_files [ex_file ''a.jar'' 1 5, ex_file ''b.jar'' 1 5]) [''b'', ''a''] \<and>
   map v_Name (sorted_versions [ex_file ''a.jar'' 1 5, ex_file ''b.jar'' 1 5] [''a'', ''b''])
     = [''a'', ''b''] \<and>
   map v_Name (sorted_versions [ex_file ''a.jar'' 1 5, ex_file ''b.jar'' 1 5] [''b'', ''a''])
     = [''b'', ''a'']"
  unfolding sorted_versions_def ex_tie_groups
  by (auto simp: range_order_def collect_versions_def sort_Slice_def newer_def
      maxTime_of_def)

theorem sorted_versions_descending_witness:
  "map (\<lambda>v. (v_Name v, MaxTime v))
     (sorted_versions [ex_file ''a.jar'' 1 5, ex_file ''b.jar'' 1 7] [''a'', ''b''])
     = [(''b'', 7), (''a'', 5)] \<and>
   sorted_wrt (\<lambda>a b. MaxTime b \<le> MaxTime a)
     (sorted_versions [ex_file ''a.jar'' 1 5, ex_file ''b.jar'' 1 7] [''a'', ''b''])"
proof -
  have "map (\<lambda>v. (v_Name v, MaxTime v))
     (sorted_versions [ex_file ''a.jar'' 1 5, ex_file ''b.jar'' 1 7] [''a'', ''b''])
     = [(''b'', 7), (''a'', 5)]"
    unfolding sorted_versions_def ex_tie_groups
    by (simp add: collect_versions_def sort_Slice_def newer_def maxTime_of_def)
  with sorted_versions_descending [of "[ex_file ''a.jar'' 1 5, ex_file ''b.jar'' 1 7]" "[''a'', ''b'']"]
  show ?thesis by blast
qed

end
